theory Spec2Isabelle
  imports Main
begin

section \<open>The callbacks handler of voice-buddy (callbacks-handler.ts)\<close>

text \<open>
  The class \<^verbatim>\<open>CallbacksHandler\<close> multiplexes Firestore watches: for every document and
  every collection it keeps one \<^verbatim>\<open>onSnapshot\<close> listener and a \<^verbatim>\<open>Map\<close> from callback ids to
  callbacks. The embedding follows the TypeScript line by line. What the code takes from
  its environment is written out:

  \<^item> the JavaScript \<^verbatim>\<open>Map\<close> of callbacks, with the list of entries of ECMA-262 (an entry
    that was deleted stays in the list as an empty slot, a new key is appended, an
    existing key keeps its slot), because \<^verbatim>\<open>forEach\<close> walks that list by index while the
    callbacks it calls may change it;
  \<^item> the objects \<^verbatim>\<open>{ func, unsubscribe }\<close> live in a heap and the two registries hold
    their addresses, because the collection listener and a running \<^verbatim>\<open>forEach\<close> keep using
    an object after the registry has dropped it;
  \<^item> the remote store is the list of the watches that are open; \<^verbatim>\<open>onSnapshot\<close> opens one
    and returns its handle, calling the returned \<^verbatim>\<open>Unsubscribe\<close> closes it;
  \<^item> \<^verbatim>\<open>nanoid()\<close> reads the next string of an arbitrary sequence;
  \<^item> a callback is a label, the calls it makes on the handler when it runs, and
    whether it throws;
  \<^item> the references are valid: \<^verbatim>\<open>doc()\<close> and \<^verbatim>\<open>onSnapshot()\<close> return, and a watch that
    has been closed delivers nothing.
\<close>

subsection \<open>The JavaScript Map of callbacks\<close>

type_synonym 'v mapData = "(string \<times> 'v) option list"

text \<open>The entries that are present, in insertion order.\<close>

fun mapEntries :: "'v mapData \<Rightarrow> (string \<times> 'v) list" where
  "mapEntries [] = []"
| "mapEntries (None # m) = mapEntries m"
| "mapEntries (Some e # m) = e # mapEntries m"

definition mapHas :: "'v mapData \<Rightarrow> string \<Rightarrow> bool" where
  "mapHas m k = (k \<in> set (map fst (mapEntries m)))"

definition mapSize :: "'v mapData \<Rightarrow> nat" where
  "mapSize m = length (mapEntries m)"

text \<open>\<^verbatim>\<open>Map.prototype.set\<close>: the value of an existing key is replaced in its slot, a new
  key is appended.\<close>

fun mapSet :: "'v mapData \<Rightarrow> string \<Rightarrow> 'v \<Rightarrow> 'v mapData" where
  "mapSet [] k v = [Some (k, v)]"
| "mapSet (None # m) k v = None # mapSet m k v"
| "mapSet (Some (k', v') # m) k v =
     (if k' = k then Some (k', v) # m else Some (k', v') # mapSet m k v)"

text \<open>\<^verbatim>\<open>Map.prototype.delete\<close>: the slot of the key is emptied, the list keeps its length.\<close>

fun mapDelete :: "'v mapData \<Rightarrow> string \<Rightarrow> 'v mapData" where
  "mapDelete [] k = []"
| "mapDelete (None # m) k = None # mapDelete m k"
| "mapDelete (Some (k', v') # m) k =
     (if k' = k then None # m else Some (k', v') # mapDelete m k)"

subsection \<open>Callbacks and the calls they can make\<close>

text \<open>
  A callback of the application is a function of the snapshot. For the handler it matters
  only through the public methods it calls while it runs and through the way it ends, so
  a callback is a label (two callbacks with the same body are still two functions), the
  list of those calls, and whether it throws after them instead of returning. The
  callbacks a callback registers are part of its description and so are smaller than it;
  a callback that registers itself again under ever new ids, on which \<^verbatim>\<open>forEach\<close> would
  not end, is not described.
\<close>

datatype callback = Callback nat "action list" bool
and action =
    AddCallback string string callback "string option" bool
  | RemoveCallback string string string
  | AddCollectionCallback string callback "string option" bool
  | RemoveCollectionCallback string string

primrec body :: "callback \<Rightarrow> action list" where
  "body (Callback l acts t) = acts"

primrec throws :: "callback \<Rightarrow> bool" where
  "throws (Callback l acts t) = t"

primrec weight :: "callback \<Rightarrow> nat" and weightAction :: "action \<Rightarrow> nat" where
  "weight (Callback l acts t) = Suc (sum_list (map weightAction acts))"
| "weightAction (AddCallback path documentId cb callbackId overwrite) = weight cb"
| "weightAction (RemoveCallback path documentId callbackId) = 0"
| "weightAction (AddCollectionCallback path cb callbackId overwrite) = weight cb"
| "weightAction (RemoveCollectionCallback path callbackId) = 0"

subsection \<open>The state: handler, heap, remote store, trace\<close>

type_synonym addr = nat
type_synonym handle = nat
type_synonym snapshot = nat

datatype kind = Doc | Col

text \<open>The interfaces \<^verbatim>\<open>Callback<Read>\<close> and \<^verbatim>\<open>CollectionCallback<Read>\<close>.\<close>

record entry =
  unsubscribe :: "handle option"
  func :: "callback mapData"

text \<open>What a listener passed to \<^verbatim>\<open>onSnapshot\<close> has captured: the document listener the
  key (it looks the entry up in \<^verbatim>\<open>this.callbacks\<close> at each delivery), the collection
  listener the object \<^verbatim>\<open>colCallback\<close> itself.\<close>

datatype listener = DocListener string | ColListener addr

record watch =
  watchHandle :: handle
  watchKind :: kind
  watchPath :: string
  watchListener :: listener

text \<open>The trace is a history variable: it records each call of a callback by a listener
  and each change of a callback map, and no method reads it.\<close>

datatype event =
    Invoked kind string string callback snapshot
  | Registered kind string string callback
  | Unregistered kind string string

record state =
  heap :: "addr \<Rightarrow> entry"
  nextAddr :: addr
  callbacks :: "string \<rightharpoonup> addr"
  collectionCallbacks :: "string \<rightharpoonup> addr"
  watches :: "watch list"
  nextHandle :: handle
  nanoidSource :: "nat \<Rightarrow> string"
  nanoidCalls :: nat
  trace :: "event list"

definition init :: "(nat \<Rightarrow> string) \<Rightarrow> state" where
  "init gen =
     \<lparr> heap = (\<lambda>a. \<lparr> unsubscribe = None, func = [] \<rparr>), nextAddr = 0,
       callbacks = Map.empty, collectionCallbacks = Map.empty,
       watches = [], nextHandle = 0,
       nanoidSource = gen, nanoidCalls = 0, trace = [] \<rparr>"

subsection \<open>The environment: nanoid, onSnapshot, Unsubscribe\<close>

definition nanoid :: "state \<Rightarrow> string \<times> state" where
  "nanoid st = (nanoidSource st (nanoidCalls st), st\<lparr> nanoidCalls := Suc (nanoidCalls st) \<rparr>)"

definition onSnapshot :: "kind \<Rightarrow> string \<Rightarrow> listener \<Rightarrow> state \<Rightarrow> handle \<times> state" where
  "onSnapshot k path l st =
     (nextHandle st,
      st\<lparr> watches := watches st @
             [\<lparr> watchHandle = nextHandle st, watchKind = k, watchPath = path,
                watchListener = l \<rparr>],
          nextHandle := Suc (nextHandle st) \<rparr>)"

definition callUnsubscribe :: "handle \<Rightarrow> state \<Rightarrow> state" where
  "callUnsubscribe h st = st\<lparr> watches := filter (\<lambda>w. watchHandle w \<noteq> h) (watches st) \<rparr>"

text \<open>\<^verbatim>\<open>entry.func.set(cbId, callback)\<close> and \<^verbatim>\<open>entry.func.delete(callbackId)\<close> on the object
  at an address, with their records in the trace.\<close>

definition funcSet :: "kind \<Rightarrow> string \<Rightarrow> addr \<Rightarrow> string \<Rightarrow> callback \<Rightarrow> state \<Rightarrow> state" where
  "funcSet k key a cbId cb st =
     st\<lparr> heap := (heap st)(a := (heap st a)\<lparr> func := mapSet (func (heap st a)) cbId cb \<rparr>),
         trace := trace st @ [Registered k key cbId cb] \<rparr>"

definition funcDelete :: "kind \<Rightarrow> string \<Rightarrow> addr \<Rightarrow> string \<Rightarrow> state \<Rightarrow> state" where
  "funcDelete k key a cbId st =
     st\<lparr> heap := (heap st)(a := (heap st a)\<lparr> func := mapDelete (func (heap st a)) cbId \<rparr>),
         trace := (if mapHas (func (heap st a)) cbId
                   then trace st @ [Unregistered k key cbId] else trace st) \<rparr>"

subsection \<open>The methods of CallbacksHandler\<close>

definition createDocumentCallbackEntry :: "string \<Rightarrow> string \<Rightarrow> state \<Rightarrow> addr \<times> state" where
  "createDocumentCallbackEntry path documentId st =
     (let key = path @ ''/'' @ documentId;
          (h, st1) = onSnapshot Doc key (DocListener key) st;
          a = nextAddr st1;
          st2 = st1\<lparr> heap := (heap st1)(a := \<lparr> unsubscribe = Some h, func = [] \<rparr>),
                    nextAddr := Suc a \<rparr>;
          st3 = st2\<lparr> callbacks := (callbacks st2)(key \<mapsto> a) \<rparr>
      in (a, st3))"

definition addCallback ::
  "string \<Rightarrow> string \<Rightarrow> callback \<Rightarrow> string option \<Rightarrow> bool \<Rightarrow> state \<Rightarrow> string \<times> state" where
  "addCallback path documentId cb callbackId overwrite st =
     (let key = path @ ''/'' @ documentId;
          (cbId, st1) = (case callbackId of Some i \<Rightarrow> (i, st) | None \<Rightarrow> nanoid st);
          (a, st2) = (case callbacks st1 key of
                        Some a \<Rightarrow> (a, st1)
                      | None \<Rightarrow> createDocumentCallbackEntry path documentId st1);
          st3 = (if overwrite then funcSet Doc key a cbId cb st2
                 else if \<not> mapHas (func (heap st2 a)) cbId then funcSet Doc key a cbId cb st2
                 else st2)
      in (cbId, st3))"

definition removeCallback :: "string \<Rightarrow> string \<Rightarrow> string \<Rightarrow> state \<Rightarrow> state" where
  "removeCallback path documentId callbackId st =
     (let key = path @ ''/'' @ documentId
      in case callbacks st key of
           None \<Rightarrow> st
         | Some a \<Rightarrow>
             (let st1 = funcDelete Doc key a callbackId st
              in if mapSize (func (heap st1 a)) = 0
                 then (let st2 = (case unsubscribe (heap st1 a) of
                                    Some h \<Rightarrow> callUnsubscribe h st1
                                  | None \<Rightarrow> st1)
                       in st2\<lparr> callbacks := (callbacks st2)(key := None) \<rparr>)
                 else st1))"

definition addCollectionCallback ::
  "string \<Rightarrow> callback \<Rightarrow> string option \<Rightarrow> bool \<Rightarrow> state \<Rightarrow> string \<times> state" where
  "addCollectionCallback path cb callbackId overwrite st =
     (let key = path;
          (a, st3) = (case collectionCallbacks st key of
                        Some a \<Rightarrow> (a, st)
                      | None \<Rightarrow>
                          (let a = nextAddr st;
                               st0 = st\<lparr> heap := (heap st)(a := \<lparr> unsubscribe = None, func = [] \<rparr>),
                                       nextAddr := Suc a \<rparr>;
                               (h, st1) = onSnapshot Col key (ColListener a) st0;
                               st2 = st1\<lparr> heap := (heap st1)(a := (heap st1 a)\<lparr> unsubscribe := Some h \<rparr>) \<rparr>
                           in (a, st2\<lparr> collectionCallbacks := (collectionCallbacks st2)(key \<mapsto> a) \<rparr>)));
          (cbId, st4) = (case callbackId of Some i \<Rightarrow> (i, st3) | None \<Rightarrow> nanoid st3);
          st5 = (if overwrite then funcSet Col key a cbId cb st4
                 else if \<not> mapHas (func (heap st4 a)) cbId then funcSet Col key a cbId cb st4
                 else st4)
      in (cbId, st5))"

definition removeCollectionCallback :: "string \<Rightarrow> string \<Rightarrow> state \<Rightarrow> state" where
  "removeCollectionCallback path callbackId st =
     (let key = path
      in case collectionCallbacks st key of
           None \<Rightarrow> st
         | Some a \<Rightarrow>
             (let st1 = funcDelete Col key a callbackId st
              in if mapSize (func (heap st1 a)) = 0
                 then (let st2 = (case unsubscribe (heap st1 a) of
                                    Some h \<Rightarrow> callUnsubscribe h st1
                                  | None \<Rightarrow> st1)
                       in st2\<lparr> collectionCallbacks := (collectionCallbacks st2)(key := None) \<rparr>)
                 else st1))"

subsection \<open>Running a callback, and the listeners\<close>

primrec exec :: "action \<Rightarrow> state \<Rightarrow> state" where
  "exec (AddCallback path documentId cb callbackId overwrite) st =
     snd (addCallback path documentId cb callbackId overwrite st)"
| "exec (RemoveCallback path documentId callbackId) st =
     removeCallback path documentId callbackId st"
| "exec (AddCollectionCallback path cb callbackId overwrite) st =
     snd (addCollectionCallback path cb callbackId overwrite st)"
| "exec (RemoveCollectionCallback path callbackId) st =
     removeCollectionCallback path callbackId st"

primrec execAll :: "action list \<Rightarrow> state \<Rightarrow> state" where
  "execAll [] st = st"
| "execAll (act # acts) st = execAll acts (exec act st)"

text \<open>\<^verbatim>\<open>cb(snapshot)\<close>: the call is recorded, then the callback makes its calls.\<close>

definition invoke :: "kind \<Rightarrow> string \<Rightarrow> string \<Rightarrow> callback \<Rightarrow> snapshot \<Rightarrow> state \<Rightarrow> state" where
  "invoke k key cbId cb snap st =
     execAll (body cb) (st\<lparr> trace := trace st @ [Invoked k key cbId cb snap] \<rparr>)"

text \<open>The weight of the entries of a map from slot \<open>i\<close> on: what \<^verbatim>\<open>forEach\<close> has still to
  visit. A callback weighs more than all the callbacks it can register.\<close>

definition weightFrom :: "callback mapData \<Rightarrow> nat \<Rightarrow> nat" where
  "weightFrom m i = sum_list (map (\<lambda>e. weight (snd e)) (mapEntries (drop i m)))"

text \<open>
  \<^verbatim>\<open>func.forEach((cb) => cb(snapshot))\<close> on the map of the object at address \<open>a\<close>, from
  slot \<open>i\<close> on (ECMA-262, Map.prototype.forEach): the list of entries is read again at
  every step, so an entry deleted before its turn is skipped and an entry appended during
  the walk is visited. Nothing catches what a callback throws, so a callback that throws
  ends the walk: the exception leaves \<^verbatim>\<open>forEach\<close> and the listener, and the state stays as
  the callback left it. The kind and the key are carried for the trace only.
\<close>

function mapForEach :: "kind \<Rightarrow> string \<Rightarrow> addr \<Rightarrow> nat \<Rightarrow> snapshot \<Rightarrow> state \<Rightarrow> state" where
  "mapForEach k key a i snap st =
     (if i < length (func (heap st a))
      then (case func (heap st a) ! i of
              None \<Rightarrow> mapForEach k key a (Suc i) snap st
            | Some e \<Rightarrow>
                (if throws (snd e) then invoke k key (fst e) (snd e) snap st
                 else mapForEach k key a (Suc i) snap (invoke k key (fst e) (snd e) snap st)))
      else st)"
  by pat_completeness auto

text \<open>The remote store delivers a snapshot to the listener of an open watch; a handle
  that is closed receives nothing.\<close>

definition deliver :: "handle \<Rightarrow> snapshot \<Rightarrow> state \<Rightarrow> state" where
  "deliver h snap st =
     (case find (\<lambda>w. watchHandle w = h) (watches st) of
        None \<Rightarrow> st
      | Some w \<Rightarrow>
          (case watchListener w of
             DocListener key \<Rightarrow>
               (case callbacks st key of
                  None \<Rightarrow> st
                | Some a \<Rightarrow> mapForEach Doc key a 0 snap st)
           | ColListener a \<Rightarrow> mapForEach Col (watchPath w) a 0 snap st))"

subsection \<open>Runs of the system\<close>

text \<open>What happens to a handler: the application calls a public method, or the store
  delivers a snapshot to a watch.\<close>

datatype input = Call action | Deliver handle snapshot

primrec step :: "input \<Rightarrow> state \<Rightarrow> state" where
  "step (Call act) st = exec act st"
| "step (Deliver h snap) st = deliver h snap st"

primrec run :: "input list \<Rightarrow> state \<Rightarrow> state" where
  "run [] st = st"
| "run (s # ss) st = run ss (step s st)"

subsection \<open>Reading a state\<close>

primrec registry :: "kind \<Rightarrow> state \<Rightarrow> string \<rightharpoonup> addr" where
  "registry Doc st = callbacks st"
| "registry Col st = collectionCallbacks st"

text \<open>The callbacks registered under a key, in dispatch order.\<close>

definition registered :: "state \<Rightarrow> kind \<Rightarrow> string \<Rightarrow> (string \<times> callback) list" where
  "registered st k key =
     (case registry k st key of None \<Rightarrow> [] | Some a \<Rightarrow> mapEntries (func (heap st a)))"

text \<open>The content of a registry: the object each key maps to.\<close>

definition registryView :: "kind \<Rightarrow> state \<Rightarrow> string \<rightharpoonup> entry" where
  "registryView k st key = map_option (heap st) (registry k st key)"

text \<open>The handles of the watches that are open on a document or collection.\<close>

definition openHandles :: "state \<Rightarrow> kind \<Rightarrow> string \<Rightarrow> handle list" where
  "openHandles st k key =
     map watchHandle (filter (\<lambda>w. watchKind w = k \<and> watchPath w = key) (watches st))"

text \<open>All that belongs to one path of the handler: its registry with the objects in it,
  and the watches of its kind that are open.\<close>

definition pathState :: "kind \<Rightarrow> state \<Rightarrow> (string \<rightharpoonup> entry) \<times> watch list" where
  "pathState k st = (registryView k st, filter (\<lambda>w. watchKind w = k) (watches st))"

primrec isInvoked :: "event \<Rightarrow> bool" where
  "isInvoked (Invoked k key cbId cb snap) = True"
| "isInvoked (Registered k key cbId cb) = False"
| "isInvoked (Unregistered k key cbId) = False"

definition invocations :: "event list \<Rightarrow> event list" where
  "invocations tr = filter isInvoked tr"

text \<open>The events a step or a delivery has added to the trace: what the trace of the later
  state has beyond the trace of the earlier one.\<close>

definition newEvents :: "state \<Rightarrow> state \<Rightarrow> event list" where
  "newEvents st st' = drop (length (trace st)) (trace st')"

subsection \<open>Reading a dispatch\<close>

text \<open>
  During a dispatch a callback of the key is pending until it has been called. An event
  disturbs a list of pending registrations when it unregisters one of them, or binds the
  id of one of them to another callback; setting an id to the callback it already has
  changes nothing. A list of events leaves the pending registrations undisturbed when
  none of its events disturbs those that are still pending when it happens.
\<close>

primrec disturbs :: "kind \<Rightarrow> string \<Rightarrow> (string \<times> callback) list \<Rightarrow> event \<Rightarrow> bool" where
  "disturbs k key P (Invoked k' key' cbId cb snap) = False"
| "disturbs k key P (Registered k' key' cbId cb) =
     (k' = k \<and> key' = key \<and> cbId \<in> set (map fst P) \<and> (cbId, cb) \<notin> set P)"
| "disturbs k key P (Unregistered k' key' cbId) =
     (k' = k \<and> key' = key \<and> cbId \<in> set (map fst P))"

primrec pendingAfter ::
  "kind \<Rightarrow> string \<Rightarrow> (string \<times> callback) list \<Rightarrow> event \<Rightarrow> (string \<times> callback) list" where
  "pendingAfter k key P (Invoked k' key' cbId cb snap) =
     (if k' = k \<and> key' = key then filter (\<lambda>e. fst e \<noteq> cbId) P else P)"
| "pendingAfter k key P (Registered k' key' cbId cb) = P"
| "pendingAfter k key P (Unregistered k' key' cbId) = P"

primrec undisturbed :: "kind \<Rightarrow> string \<Rightarrow> (string \<times> callback) list \<Rightarrow> event list \<Rightarrow> bool" where
  "undisturbed k key P [] = True"
| "undisturbed k key P (e # tr) =
     (\<not> disturbs k key P e \<and> undisturbed k key (pendingAfter k key P e) tr)"

text \<open>A call under a key; a call of a callback under a key that one of the given events
  registered there.\<close>

primrec calledOn :: "kind \<Rightarrow> string \<Rightarrow> event \<Rightarrow> bool" where
  "calledOn k key (Invoked k' key' cbId cb snap) = (k' = k \<and> key' = key)"
| "calledOn k key (Registered k' key' cbId cb) = False"
| "calledOn k key (Unregistered k' key' cbId) = False"

primrec registeredIn :: "kind \<Rightarrow> string \<Rightarrow> event list \<Rightarrow> event \<Rightarrow> bool" where
  "registeredIn k key evs (Invoked k' key' cbId cb snap) =
     (k' = k \<and> key' = key \<and> Registered k key cbId cb \<in> set evs)"
| "registeredIn k key evs (Registered k' key' cbId cb) = False"
| "registeredIn k key evs (Unregistered k' key' cbId) = False"

text \<open>The ids that come before an id in a dispatch order; a call under one of some ids
  of a key, and such a call of a callback that throws.\<close>

definition idsAhead :: "string \<Rightarrow> (string \<times> callback) list \<Rightarrow> string list" where
  "idsAhead cbId es = map fst (takeWhile (\<lambda>e. fst e \<noteq> cbId) es)"

primrec calledUnder :: "kind \<Rightarrow> string \<Rightarrow> string list \<Rightarrow> event \<Rightarrow> bool" where
  "calledUnder k key ids (Invoked k' key' cbId cb snap) =
     (k' = k \<and> key' = key \<and> cbId \<in> set ids)"
| "calledUnder k key ids (Registered k' key' cbId cb) = False"
| "calledUnder k key ids (Unregistered k' key' cbId) = False"

primrec throwsUnder :: "kind \<Rightarrow> string \<Rightarrow> string list \<Rightarrow> event \<Rightarrow> bool" where
  "throwsUnder k key ids (Invoked k' key' cbId cb snap) =
     (k' = k \<and> key' = key \<and> cbId \<in> set ids \<and> throws cb)"
| "throwsUnder k key ids (Registered k' key' cbId cb) = False"
| "throwsUnder k key ids (Unregistered k' key' cbId) = False"

subsection \<open>The two paths as one operation\<close>

text \<open>
  The collection path mirrors the document path: the methods differ in the registry they
  use, in what the listener captures and in where \<^verbatim>\<open>nanoid()\<close> is called. The operations
  below are the common shape; each method is proved equal to one of them, and the
  invariants are proved once.
\<close>

primrec setRegistry :: "kind \<Rightarrow> (string \<rightharpoonup> addr) \<Rightarrow> state \<Rightarrow> state" where
  "setRegistry Doc f st = st\<lparr> callbacks := f \<rparr>"
| "setRegistry Col f st = st\<lparr> collectionCallbacks := f \<rparr>"

primrec listenerFor :: "kind \<Rightarrow> string \<Rightarrow> addr \<Rightarrow> listener" where
  "listenerFor Doc key a = DocListener key"
| "listenerFor Col key a = ColListener a"

definition openEntry :: "kind \<Rightarrow> string \<Rightarrow> state \<Rightarrow> state" where
  "openEntry k key st =
     setRegistry k ((registry k st)(key \<mapsto> nextAddr st))
       (st\<lparr> heap := (heap st)(nextAddr st := \<lparr> unsubscribe = Some (nextHandle st), func = [] \<rparr>),
            nextAddr := Suc (nextAddr st),
            watches := watches st @
              [\<lparr> watchHandle = nextHandle st, watchKind = k, watchPath = key,
                 watchListener = listenerFor k key (nextAddr st) \<rparr>],
            nextHandle := Suc (nextHandle st) \<rparr>)"

definition register :: "kind \<Rightarrow> string \<Rightarrow> string \<Rightarrow> callback \<Rightarrow> bool \<Rightarrow> state \<Rightarrow> state" where
  "register k key cbId cb overwrite st =
     (let st1 = (case registry k st key of Some a \<Rightarrow> st | None \<Rightarrow> openEntry k key st);
          a = (case registry k st key of Some a \<Rightarrow> a | None \<Rightarrow> nextAddr st)
      in if overwrite \<or> \<not> mapHas (func (heap st1 a)) cbId
         then funcSet k key a cbId cb st1 else st1)"

definition closeEntry :: "kind \<Rightarrow> string \<Rightarrow> addr \<Rightarrow> state \<Rightarrow> state" where
  "closeEntry k key a st =
     (let st2 = (case unsubscribe (heap st a) of Some h \<Rightarrow> callUnsubscribe h st | None \<Rightarrow> st)
      in setRegistry k ((registry k st2)(key := None)) st2)"

definition unregister :: "kind \<Rightarrow> string \<Rightarrow> string \<Rightarrow> state \<Rightarrow> state" where
  "unregister k key cbId st =
     (case registry k st key of
        None \<Rightarrow> st
      | Some a \<Rightarrow>
          (let st1 = funcDelete k key a cbId st
           in if mapEntries (func (heap st1 a)) = [] then closeEntry k key a st1 else st1))"

definition tick :: "state \<Rightarrow> state" where
  "tick st = st\<lparr> nanoidCalls := Suc (nanoidCalls st) \<rparr>"

text \<open>The id a method uses, and the state after it has been chosen.\<close>

primrec chosenId :: "string option \<Rightarrow> state \<Rightarrow> string" where
  "chosenId None st = nanoidSource st (nanoidCalls st)"
| "chosenId (Some i) st = i"

primrec afterId :: "string option \<Rightarrow> state \<Rightarrow> state" where
  "afterId None st = tick st"
| "afterId (Some i) st = st"

subsection \<open>Invariants\<close>

text \<open>
  The structure every reachable state has: a registered object is allocated, belongs to
  one key of one registry, has at least one callback and owns an open watch on its own
  document or collection with the listener made for it; an open watch belongs to the
  object registered for its document or collection; handles are not reused; no id occurs
  twice in a map.
\<close>

definition ownWatch :: "kind \<Rightarrow> string \<Rightarrow> addr \<Rightarrow> handle \<Rightarrow> watch" where
  "ownWatch k key a h =
     \<lparr> watchHandle = h, watchKind = k, watchPath = key, watchListener = listenerFor k key a \<rparr>"

definition invEntries :: "state \<Rightarrow> bool" where
  "invEntries st =
     (\<forall>k key a. registry k st key = Some a \<longrightarrow>
        a < nextAddr st \<and> mapEntries (func (heap st a)) \<noteq> [] \<and>
        (\<exists>h. unsubscribe (heap st a) = Some h \<and> ownWatch k key a h \<in> set (watches st)))"

definition invUnshared :: "state \<Rightarrow> bool" where
  "invUnshared st =
     (\<forall>k key k' key' a. registry k st key = Some a \<longrightarrow> registry k' st key' = Some a \<longrightarrow>
        k = k' \<and> key = key')"

definition invWatches :: "state \<Rightarrow> bool" where
  "invWatches st =
     (distinct (map watchHandle (watches st)) \<and>
      (\<forall>w \<in> set (watches st). watchHandle w < nextHandle st \<and>
         (\<exists>a. registry (watchKind w) st (watchPath w) = Some a \<and>
              unsubscribe (heap st a) = Some (watchHandle w))))"

definition invIds :: "state \<Rightarrow> bool" where
  "invIds st = (\<forall>a. distinct (map fst (mapEntries (func (heap st a)))))"

definition invariant :: "state \<Rightarrow> bool" where
  "invariant st = (invEntries st \<and> invUnshared st \<and> invWatches st \<and> invIds st)"

text \<open>The object a listener walks is the one registered under its key, or it has been
  dropped from the registry, and then its map is empty for good.\<close>

definition walked :: "kind \<Rightarrow> string \<Rightarrow> addr \<Rightarrow> state \<Rightarrow> bool" where
  "walked k key a st =
     (a < nextAddr st \<and> (registry k st key = Some a \<or> mapEntries (func (heap st a)) = []))"

subsection \<open>Reading a trace\<close>

text \<open>The callback an id of a key is bound to after the events of a trace.\<close>

type_synonym bindings = "kind \<times> string \<times> string \<rightharpoonup> callback"

primrec record_event :: "bindings \<Rightarrow> event \<Rightarrow> bindings" where
  "record_event b (Invoked k key cbId cb snap) = b"
| "record_event b (Registered k key cbId cb) = b((k, key, cbId) \<mapsto> cb)"
| "record_event b (Unregistered k key cbId) = b((k, key, cbId) := None)"

text \<open>Every call in the trace is a call of the callback its id was bound to then.\<close>

primrec wellInvoked :: "bindings \<Rightarrow> event list \<Rightarrow> bool" where
  "wellInvoked b [] = True"
| "wellInvoked b (e # tr) =
     ((case e of Invoked k key cbId cb snap \<Rightarrow> b (k, key, cbId) = Some cb | _ \<Rightarrow> True)
      \<and> wellInvoked (record_event b e) tr)"

definition stateBindings :: "state \<Rightarrow> bindings" where
  "stateBindings st = (\<lambda>(k, key, cbId). map_of (registered st k key) cbId)"

definition invTrace :: "state \<Rightarrow> bool" where
  "invTrace st =
     (wellInvoked Map.empty (trace st) \<and>
      foldl record_event Map.empty (trace st) = stateBindings st)"

subsection \<open>How a callback map changes while it is walked\<close>

text \<open>
  What the calls of a callback can do to the slots of the map of a key, in terms of the
  events they leave in the trace: a slot keeps its content, or its entry is deleted by an
  unregistration of its id, or its entry gets a new callback by a registration under its
  id; an empty slot stays empty; a slot that is appended holds an entry that was
  registered, unless it has been emptied again. The length never shrinks.
\<close>

definition slotAt :: "'a list \<Rightarrow> nat \<Rightarrow> 'a option" where
  "slotAt m j = (if j < length m then Some (m ! j) else None)"

definition slotEvolves ::
  "kind \<Rightarrow> string \<Rightarrow> event list \<Rightarrow> (string \<times> callback) option option \<Rightarrow>
   (string \<times> callback) option \<Rightarrow> bool" where
  "slotEvolves k key evs old new =
     (case old of
        None \<Rightarrow> (case new of None \<Rightarrow> True
                 | Some e \<Rightarrow> Registered k key (fst e) (snd e) \<in> set evs)
      | Some None \<Rightarrow> new = None
      | Some (Some e) \<Rightarrow>
          (case new of None \<Rightarrow> Unregistered k key (fst e) \<in> set evs
           | Some e' \<Rightarrow> e' = e \<or>
               (fst e' = fst e \<and> Registered k key (fst e) (snd e') \<in> set evs)))"

definition evolves ::
  "kind \<Rightarrow> string \<Rightarrow> event list \<Rightarrow> callback mapData \<Rightarrow> callback mapData \<Rightarrow> bool" where
  "evolves k key evs m m' =
     (length m \<le> length m' \<and>
      (\<forall>j. j < length m' \<longrightarrow> slotEvolves k key evs (slotAt m j) (m' ! j)))"

text \<open>The entries in the slots from \<open>L\<close> on were registered by the given events.\<close>

definition addedSince :: "kind \<Rightarrow> string \<Rightarrow> nat \<Rightarrow> event list \<Rightarrow> callback mapData \<Rightarrow> bool" where
  "addedSince k key L evs m =
     (\<forall>j x c. L \<le> j \<longrightarrow> j < length m \<longrightarrow> m ! j = Some (x, c) \<longrightarrow>
        Registered k key x c \<in> set evs)"

subsection \<open>A sample run\<close>

text \<open>A state used to try the theorems on: one callback on the document \<^verbatim>\<open>users/u1\<close>, one
  on the collection \<^verbatim>\<open>rooms\<close>; \<^verbatim>\<open>nanoid()\<close> returns g, gg, ggg, ...\<close>

definition sampleIds :: "nat \<Rightarrow> string" where
  "sampleIds n = replicate (Suc n) CHR ''g''"

definition sampleRun :: "input list" where
  "sampleRun =
     [Call (AddCallback ''users'' ''u1'' (Callback 0 [] False) (Some ''a'') False),
      Call (AddCollectionCallback ''rooms'' (Callback 1 [] False) (Some ''b'') False)]"

definition sample :: state where
  "sample = run sampleRun (init sampleIds)"

text \<open>A second state: the document \<^verbatim>\<open>users/u1\<close> has two callbacks, and the first one, when
  it runs, unregisters the second.\<close>

definition removerRun :: "input list" where
  "removerRun =
     [Call (AddCallback ''users'' ''u1''
        (Callback 0 [RemoveCallback ''users'' ''u1'' ''b''] False) (Some ''a'') False),
      Call (AddCallback ''users'' ''u1'' (Callback 1 [] False) (Some ''b'') False)]"

definition remover :: state where
  "remover = run removerRun (init sampleIds)"

text \<open>A third state: two callbacks on the document \<^verbatim>\<open>users/u1\<close> and two on the collection
  \<^verbatim>\<open>rooms\<close>, under the ids a and b.\<close>

definition pairsRun :: "input list" where
  "pairsRun =
     [Call (AddCallback ''users'' ''u1'' (Callback 0 [] False) (Some ''a'') False),
      Call (AddCallback ''users'' ''u1'' (Callback 1 [] False) (Some ''b'') False),
      Call (AddCollectionCallback ''rooms'' (Callback 2 [] False) (Some ''a'') False),
      Call (AddCollectionCallback ''rooms'' (Callback 3 [] False) (Some ''b'') False)]"

definition pairs :: state where
  "pairs = run pairsRun (init sampleIds)"

text \<open>A fourth state: a callback on the document \<^verbatim>\<open>users/u1\<close> and one on a collection
  whose path is the same string \<^verbatim>\<open>users/u1\<close>.\<close>

definition twinsRun :: "input list" where
  "twinsRun =
     [Call (AddCallback ''users'' ''u1'' (Callback 0 [] False) (Some ''a'') False),
      Call (AddCollectionCallback ''users/u1'' (Callback 1 [] False) (Some ''a'') False)]"

definition twins :: state where
  "twins = run twinsRun (init sampleIds)"

text \<open>Three more states with two callbacks a and b on the document \<^verbatim>\<open>users/u1\<close>. In
  \<open>busy\<close> the first callback unregisters itself when it runs and the second registers a
  third one under the new id c; in \<open>thrower\<close> the first callback throws; in \<open>replacer\<close>
  the first callback overwrites the id of the second with another callback.\<close>

definition busyRun :: "input list" where
  "busyRun =
     [Call (AddCallback ''users'' ''u1''
        (Callback 0 [RemoveCallback ''users'' ''u1'' ''a''] False) (Some ''a'') False),
      Call (AddCallback ''users'' ''u1''
        (Callback 1 [AddCallback ''users'' ''u1'' (Callback 2 [] False) (Some ''c'') False] False)
        (Some ''b'') False)]"

definition busy :: state where
  "busy = run busyRun (init sampleIds)"

definition throwerRun :: "input list" where
  "throwerRun =
     [Call (AddCallback ''users'' ''u1'' (Callback 0 [] True) (Some ''a'') False),
      Call (AddCallback ''users'' ''u1'' (Callback 1 [] False) (Some ''b'') False)]"

definition thrower :: state where
  "thrower = run throwerRun (init sampleIds)"

definition replacerRun :: "input list" where
  "replacerRun =
     [Call (AddCallback ''users'' ''u1''
        (Callback 0 [AddCallback ''users'' ''u1'' (Callback 5 [] False) (Some ''b'') True] False)
        (Some ''a'') False),
      Call (AddCallback ''users'' ''u1'' (Callback 1 [] False) (Some ''b'') False)]"

definition replacer :: state where
  "replacer = run replacerRun (init sampleIds)"

section \<open>Properties\<close>

subsection \<open>Facts about the Map operations\<close>

lemma mapEntries_nth: "i < length m \<Longrightarrow> m ! i = Some e \<Longrightarrow> e \<in> set (mapEntries m)"
proof (induction m arbitrary: i rule: mapEntries.induct)
  case 1
  then show ?case by simp
next
  case (2 m)
  then show ?case by (cases i) simp_all
next
  case (3 e' m)
  then show ?case by (cases i) auto
qed

lemma mapSet_not_empty: "mapEntries (mapSet m k v) \<noteq> []"
  by (induction m k v rule: mapSet.induct) simp_all

lemma keys_mapSet:
  "set (map fst (mapEntries (mapSet m k v))) = insert k (set (map fst (mapEntries m)))"
  by (induction m k v rule: mapSet.induct) auto

lemma distinct_mapSet:
  "distinct (map fst (mapEntries m)) \<Longrightarrow> distinct (map fst (mapEntries (mapSet m k v)))"
proof (induction m k v rule: mapSet.induct)
  case (3 k' v' m k v)
  then show ?case using keys_mapSet [of m k v] by auto
qed simp_all

lemma map_of_mapSet:
  "map_of (mapEntries (mapSet m k v)) = (map_of (mapEntries m))(k \<mapsto> v)"
  by (induction m k v rule: mapSet.induct) (auto simp: fun_eq_iff)

lemma mapSet_existing:
  "distinct (map fst (mapEntries m)) \<Longrightarrow>
   mapEntries (mapSet m k v) =
     (if mapHas m k then map (\<lambda>e. if fst e = k then (k, v) else e) (mapEntries m)
      else mapEntries m @ [(k, v)])"
proof (induction m k v rule: mapSet.induct)
  case (3 k' v' m k v)
  have same: "map (\<lambda>e. if fst e = k then (k, v) else e) (mapEntries m) = mapEntries m"
    if "k \<notin> fst ` set (mapEntries m)"
    using that by (intro map_idI) force
  from 3 show ?case
    by (auto simp: mapHas_def same)
qed (simp_all add: mapHas_def)

lemma length_mapDelete [simp]: "length (mapDelete m k) = length m"
  by (induction m k rule: mapDelete.induct) simp_all

lemma mapDelete_absent: "\<not> mapHas m k \<Longrightarrow> mapDelete m k = m"
  by (induction m k rule: mapDelete.induct) (auto simp: mapHas_def)

lemma keys_mapDelete_subset:
  "set (map fst (mapEntries (mapDelete m k))) \<subseteq> set (map fst (mapEntries m))"
  by (induction m k rule: mapDelete.induct) auto

lemma distinct_mapDelete:
  "distinct (map fst (mapEntries m)) \<Longrightarrow> distinct (map fst (mapEntries (mapDelete m k)))"
proof (induction m k rule: mapDelete.induct)
  case (3 k' v' m k)
  then show ?case using keys_mapDelete_subset [of m k] by auto
qed simp_all

lemma mapEntries_mapDelete:
  "distinct (map fst (mapEntries m)) \<Longrightarrow>
   mapEntries (mapDelete m k) = filter (\<lambda>e. fst e \<noteq> k) (mapEntries m)"
proof (induction m k rule: mapDelete.induct)
  case (3 k' v' m k)
  then show ?case
    by (auto intro!: filter_True [symmetric])
qed simp_all

subsection \<open>The weight forEach has still to visit\<close>

lemma weightFrom_Nil: "weightFrom [] i = 0"
  by (simp add: weightFrom_def)

lemma weightFrom_Cons_Suc: "weightFrom (x # m) (Suc i) = weightFrom m i"
  by (simp add: weightFrom_def)

lemma weightFrom_mapSet: "weightFrom (mapSet m k v) i \<le> weightFrom m i + weight v"
proof (induction m k v arbitrary: i rule: mapSet.induct)
  case (1 k v)
  show ?case by (cases i) (simp_all add: weightFrom_def)
next
  case (2 m k v)
  show ?case
  proof (cases i)
    case 0
    with "2" [of 0] show ?thesis by (simp add: weightFrom_def)
  next
    case (Suc j)
    with "2" [of j] show ?thesis by (simp add: weightFrom_Cons_Suc)
  qed
next
  case (3 k' v' m k v)
  show ?case
  proof (cases i)
    case 0
    with "3" [of 0] show ?thesis by (simp add: weightFrom_def)
  next
    case (Suc j)
    with "3" [of j] show ?thesis by (simp add: weightFrom_Cons_Suc)
  qed
qed

lemma weightFrom_mapDelete: "weightFrom (mapDelete m k) i \<le> weightFrom m i"
proof (induction m k arbitrary: i rule: mapDelete.induct)
  case (1 k)
  show ?case by simp
next
  case (2 m k)
  show ?case
  proof (cases i)
    case 0
    with "2" [of 0] show ?thesis by (simp add: weightFrom_def)
  next
    case (Suc j)
    with "2" [of j] show ?thesis by (simp add: weightFrom_Cons_Suc)
  qed
next
  case (3 k' v' m k)
  show ?case
  proof (cases i)
    case 0
    with "3" [of 0] show ?thesis by (simp add: weightFrom_def)
  next
    case (Suc j)
    with "3" [of j] show ?thesis by (simp add: weightFrom_Cons_Suc)
  qed
qed

lemma weightFrom_step:
  "i < length m \<Longrightarrow> m ! i = Some e \<Longrightarrow> weightFrom m i = weight (snd e) + weightFrom m (Suc i)"
  by (simp add: weightFrom_def Cons_nth_drop_Suc [symmetric])

lemma weightFrom_skip:
  "i < length m \<Longrightarrow> m ! i = None \<Longrightarrow> weightFrom m (Suc i) = weightFrom m i"
  by (simp add: weightFrom_def Cons_nth_drop_Suc [symmetric])

subsection \<open>What each elementary operation changes\<close>

lemma registry_updates [simp]:
  "registry k (st\<lparr> heap := hp \<rparr>) = registry k st"
  "registry k (st\<lparr> nextAddr := n \<rparr>) = registry k st"
  "registry k (st\<lparr> watches := ws \<rparr>) = registry k st"
  "registry k (st\<lparr> nextHandle := n \<rparr>) = registry k st"
  "registry k (st\<lparr> nanoidCalls := n \<rparr>) = registry k st"
  "registry k (st\<lparr> trace := tr \<rparr>) = registry k st"
  by (cases k; simp)+

lemma setRegistry_fields [simp]:
  "registry k' (setRegistry k f st) = (if k' = k then f else registry k' st)"
  "heap (setRegistry k f st) = heap st"
  "nextAddr (setRegistry k f st) = nextAddr st"
  "watches (setRegistry k f st) = watches st"
  "nextHandle (setRegistry k f st) = nextHandle st"
  "nanoidSource (setRegistry k f st) = nanoidSource st"
  "nanoidCalls (setRegistry k f st) = nanoidCalls st"
  "trace (setRegistry k f st) = trace st"
  by (cases k; cases k'; simp)+

lemma funcSet_fields [simp]:
  "func (heap (funcSet k key a cbId cb st) a') =
     (if a' = a then mapSet (func (heap st a)) cbId cb else func (heap st a'))"
  "unsubscribe (heap (funcSet k key a cbId cb st) a') = unsubscribe (heap st a')"
  "registry k' (funcSet k key a cbId cb st) = registry k' st"
  "nextAddr (funcSet k key a cbId cb st) = nextAddr st"
  "watches (funcSet k key a cbId cb st) = watches st"
  "nextHandle (funcSet k key a cbId cb st) = nextHandle st"
  "nanoidSource (funcSet k key a cbId cb st) = nanoidSource st"
  "nanoidCalls (funcSet k key a cbId cb st) = nanoidCalls st"
  "trace (funcSet k key a cbId cb st) = trace st @ [Registered k key cbId cb]"
  by (simp_all add: funcSet_def)

lemma funcDelete_fields [simp]:
  "func (heap (funcDelete k key a cbId st) a') =
     (if a' = a then mapDelete (func (heap st a)) cbId else func (heap st a'))"
  "unsubscribe (heap (funcDelete k key a cbId st) a') = unsubscribe (heap st a')"
  "registry k' (funcDelete k key a cbId st) = registry k' st"
  "nextAddr (funcDelete k key a cbId st) = nextAddr st"
  "watches (funcDelete k key a cbId st) = watches st"
  "nextHandle (funcDelete k key a cbId st) = nextHandle st"
  "nanoidSource (funcDelete k key a cbId st) = nanoidSource st"
  "nanoidCalls (funcDelete k key a cbId st) = nanoidCalls st"
  "trace (funcDelete k key a cbId st) =
     (if mapHas (func (heap st a)) cbId then trace st @ [Unregistered k key cbId] else trace st)"
  by (simp_all add: funcDelete_def)

lemma callUnsubscribe_fields [simp]:
  "heap (callUnsubscribe h st) = heap st"
  "registry k' (callUnsubscribe h st) = registry k' st"
  "nextAddr (callUnsubscribe h st) = nextAddr st"
  "watches (callUnsubscribe h st) = filter (\<lambda>w. watchHandle w \<noteq> h) (watches st)"
  "nextHandle (callUnsubscribe h st) = nextHandle st"
  "nanoidSource (callUnsubscribe h st) = nanoidSource st"
  "nanoidCalls (callUnsubscribe h st) = nanoidCalls st"
  "trace (callUnsubscribe h st) = trace st"
  by (simp_all add: callUnsubscribe_def)

lemma tick_fields [simp]:
  "heap (tick st) = heap st"
  "registry k' (tick st) = registry k' st"
  "nextAddr (tick st) = nextAddr st"
  "watches (tick st) = watches st"
  "nextHandle (tick st) = nextHandle st"
  "nanoidSource (tick st) = nanoidSource st"
  "nanoidCalls (tick st) = Suc (nanoidCalls st)"
  "trace (tick st) = trace st"
  by (simp_all add: tick_def)

lemma openEntry_fields [simp]:
  "func (heap (openEntry k key st) a') = (if a' = nextAddr st then [] else func (heap st a'))"
  "unsubscribe (heap (openEntry k key st) a') =
     (if a' = nextAddr st then Some (nextHandle st) else unsubscribe (heap st a'))"
  "registry k' (openEntry k key st) =
     (if k' = k then (registry k st)(key \<mapsto> nextAddr st) else registry k' st)"
  "nextAddr (openEntry k key st) = Suc (nextAddr st)"
  "watches (openEntry k key st) = watches st @ [ownWatch k key (nextAddr st) (nextHandle st)]"
  "nextHandle (openEntry k key st) = Suc (nextHandle st)"
  "nanoidSource (openEntry k key st) = nanoidSource st"
  "nanoidCalls (openEntry k key st) = nanoidCalls st"
  "trace (openEntry k key st) = trace st"
  by (simp_all add: openEntry_def ownWatch_def)

lemma closeEntry_fields [simp]:
  "heap (closeEntry k key a st) = heap st"
  "registry k' (closeEntry k key a st) =
     (if k' = k then (registry k st)(key := None) else registry k' st)"
  "nextAddr (closeEntry k key a st) = nextAddr st"
  "watches (closeEntry k key a st) =
     (case unsubscribe (heap st a) of
        Some h \<Rightarrow> filter (\<lambda>w. watchHandle w \<noteq> h) (watches st)
      | None \<Rightarrow> watches st)"
  "nextHandle (closeEntry k key a st) = nextHandle st"
  "nanoidSource (closeEntry k key a st) = nanoidSource st"
  "nanoidCalls (closeEntry k key a st) = nanoidCalls st"
  "trace (closeEntry k key a st) = trace st"
  by (simp_all add: closeEntry_def Let_def split: option.split)

subsection \<open>The methods are the common operations\<close>

lemma addCallback_register:
  "addCallback path documentId cb callbackId overwrite st =
     (chosenId callbackId st,
      register Doc (path @ ''/'' @ documentId) (chosenId callbackId st) cb overwrite
        (afterId callbackId st))"
  by (cases callbackId)
     (auto simp: addCallback_def register_def createDocumentCallbackEntry_def onSnapshot_def
        openEntry_def nanoid_def tick_def funcSet_def Let_def split: option.split
        intro!: state.equality)

lemma addCollectionCallback_register:
  "addCollectionCallback path cb callbackId overwrite st =
     (chosenId callbackId st,
      register Col path (chosenId callbackId st) cb overwrite (afterId callbackId st))"
  by (cases callbackId)
     (auto simp: addCollectionCallback_def register_def onSnapshot_def openEntry_def
        nanoid_def tick_def funcSet_def Let_def split: option.split intro!: state.equality)

lemma removeCallback_unregister:
  "removeCallback path documentId callbackId st =
     unregister Doc (path @ ''/'' @ documentId) callbackId st"
  by (simp add: removeCallback_def unregister_def closeEntry_def mapSize_def Let_def
        split: option.split)

lemma removeCollectionCallback_unregister:
  "removeCollectionCallback path callbackId st = unregister Col path callbackId st"
  by (simp add: removeCollectionCallback_def unregister_def closeEntry_def mapSize_def Let_def
        split: option.split)

lemma afterId_fields [simp]:
  "heap (afterId callbackId st) = heap st"
  "registry k' (afterId callbackId st) = registry k' st"
  "nextAddr (afterId callbackId st) = nextAddr st"
  "watches (afterId callbackId st) = watches st"
  "nextHandle (afterId callbackId st) = nextHandle st"
  "nanoidSource (afterId callbackId st) = nanoidSource st"
  "trace (afterId callbackId st) = trace st"
  by (cases callbackId; simp)+

lemma exec_generic:
  "exec (AddCallback path documentId cb callbackId overwrite) st =
     register Doc (path @ ''/'' @ documentId) (chosenId callbackId st) cb overwrite
       (afterId callbackId st)"
  "exec (RemoveCallback path documentId cbId) st =
     unregister Doc (path @ ''/'' @ documentId) cbId st"
  "exec (AddCollectionCallback path cb callbackId overwrite) st =
     register Col path (chosenId callbackId st) cb overwrite (afterId callbackId st)"
  "exec (RemoveCollectionCallback path cbId) st = unregister Col path cbId st"
  by (simp_all add: addCallback_register addCollectionCallback_register
        removeCallback_unregister removeCollectionCallback_unregister)

subsection \<open>forEach terminates\<close>

lemma register_weight:
  "weightFrom (func (heap (register k key cbId cb overwrite st) a)) i
     \<le> weightFrom (func (heap st a)) i + weight cb"
proof -
  let ?st1 = "case registry k st key of Some a \<Rightarrow> st | None \<Rightarrow> openEntry k key st"
  have opened: "weightFrom (func (heap ?st1 a)) i \<le> weightFrom (func (heap st a)) i"
    by (simp add: weightFrom_Nil split: option.split)
  have "weightFrom (func (heap (funcSet k key b cbId cb ?st1) a)) i
          \<le> weightFrom (func (heap ?st1 a)) i + weight cb" for b
    by (simp add: weightFrom_mapSet)
  with opened have "weightFrom (func (heap (funcSet k key b cbId cb ?st1) a)) i
          \<le> weightFrom (func (heap st a)) i + weight cb" for b
    by (meson add_le_mono1 order_trans)
  with opened show ?thesis
    by (simp add: register_def Let_def trans_le_add1 del: funcSet_fields)
qed

lemma unregister_weight:
  "weightFrom (func (heap (unregister k key cbId st) a)) i \<le> weightFrom (func (heap st a)) i"
  by (simp add: unregister_def Let_def weightFrom_mapDelete split: option.split)

lemma exec_weight:
  "weightFrom (func (heap (exec act st) a)) i \<le> weightFrom (func (heap st a)) i + weightAction act"
proof (cases act)
  case (AddCallback path documentId cb callbackId overwrite)
  then show ?thesis
    using register_weight [of Doc _ _ cb overwrite "afterId callbackId st" a i]
    by (simp add: exec_generic del: exec.simps)
next
  case (AddCollectionCallback path cb callbackId overwrite)
  then show ?thesis
    using register_weight [of Col _ _ cb overwrite "afterId callbackId st" a i]
    by (simp add: exec_generic del: exec.simps)
qed (simp_all add: exec_generic unregister_weight del: exec.simps)

lemma execAll_weight:
  "weightFrom (func (heap (execAll acts st) a)) i
     \<le> weightFrom (func (heap st a)) i + sum_list (map weightAction acts)"
proof (induction acts arbitrary: st)
  case Nil
  show ?case by simp
next
  case (Cons act acts)
  have "weightFrom (func (heap (execAll acts (exec act st)) a)) i
          \<le> weightFrom (func (heap (exec act st) a)) i + sum_list (map weightAction acts)"
    by (rule Cons.IH)
  also have "weightFrom (func (heap (exec act st) a)) i
          \<le> weightFrom (func (heap st a)) i + weightAction act"
    by (rule exec_weight)
  finally show ?case by simp
qed

lemma invoke_weight:
  "weightFrom (func (heap (invoke k key cbId cb snap st) a)) i
     < weightFrom (func (heap st a)) i + weight cb"
proof (cases cb)
  case (Callback l acts t)
  have "weightFrom (func (heap (execAll acts (st\<lparr> trace := trace st @ [Invoked k key cbId cb snap] \<rparr>)) a)) i
          \<le> weightFrom (func (heap st a)) i + sum_list (map weightAction acts)"
    using execAll_weight [of acts "st\<lparr> trace := trace st @ [Invoked k key cbId cb snap] \<rparr>" a i]
    by simp
  with Callback show ?thesis by (simp add: invoke_def)
qed

termination mapForEach
  apply (relation "inv_image (less_than <*lex*> less_than)
    (\<lambda>(k, key, a, i, snap, st). (weightFrom (func (heap st a)) i, length (func (heap st a)) - i))")
  subgoal
    by (intro wf_inv_image wf_lex_prod wf_less_than)
  subgoal for k key a i snap st
    by (simp add: weightFrom_skip)
  subgoal for k key a i snap st e
    using invoke_weight [of k key "fst e" "snd e" snap st a "Suc i"] weightFrom_step [of i "func (heap st a)" e]
    by simp
  done

declare mapForEach.simps [simp del]

subsection \<open>Evaluating concrete runs\<close>

lemmas eval =
  init_def addCallback_def removeCallback_def addCollectionCallback_def
  removeCollectionCallback_def createDocumentCallbackEntry_def onSnapshot_def nanoid_def
  funcSet_def funcDelete_def callUnsubscribe_def Let_def mapHas_def mapSize_def
  deliver_def mapForEach.simps invoke_def registered_def openHandles_def

lemmas sample_eval = sample_def sampleRun_def sampleIds_def

lemmas remover_eval = remover_def removerRun_def sampleIds_def

lemmas pairs_eval = pairs_def pairsRun_def sampleIds_def

lemmas twins_eval = twins_def twinsRun_def sampleIds_def

lemmas busy_eval = busy_def busyRun_def sampleIds_def

lemmas thrower_eval = thrower_def throwerRun_def sampleIds_def

lemmas replacer_eval = replacer_def replacerRun_def sampleIds_def


subsection \<open>The invariant holds in every reachable state\<close>

lemma registry_init [simp]: "registry k (init gen) = Map.empty"
  by (cases k) (simp_all add: init_def)

lemma invariant_init: "invariant (init gen)"
  by (simp add: invariant_def invEntries_def invUnshared_def invWatches_def invIds_def)
     (simp add: init_def)

lemma invariant_afterId: "invariant st \<Longrightarrow> invariant (afterId callbackId st)"
  by (simp add: invariant_def invEntries_def invUnshared_def invWatches_def invIds_def)

lemma watch_unique:
  "distinct (map watchHandle ws) \<Longrightarrow> w \<in> set ws \<Longrightarrow> w' \<in> set ws \<Longrightarrow>
   watchHandle w = watchHandle w' \<Longrightarrow> w = w'"
  by (meson distinct_map inj_on_eq_iff)

lemma ownWatch_fields [simp]:
  "watchHandle (ownWatch k key a h) = h"
  "watchKind (ownWatch k key a h) = k"
  "watchPath (ownWatch k key a h) = key"
  "watchListener (ownWatch k key a h) = listenerFor k key a"
  by (simp_all add: ownWatch_def)

lemma invEntriesD:
  assumes "invEntries st" and "registry k st key = Some a"
  shows "a < nextAddr st" and "mapEntries (func (heap st a)) \<noteq> []"
    and "\<exists>h. unsubscribe (heap st a) = Some h \<and> ownWatch k key a h \<in> set (watches st)"
  using assms unfolding invEntries_def by blast+

lemma invUnsharedD:
  "invUnshared st \<Longrightarrow> registry k st key = Some a \<Longrightarrow> registry k' st key' = Some a \<Longrightarrow>
   k = k' \<and> key = key'"
  unfolding invUnshared_def by blast

lemma invWatchesD:
  assumes "invWatches st" and "w \<in> set (watches st)"
  shows "watchHandle w < nextHandle st"
    and "\<exists>a. registry (watchKind w) st (watchPath w) = Some a \<and>
           unsubscribe (heap st a) = Some (watchHandle w)"
  using assms unfolding invWatches_def by blast+

lemma register_existing:
  "registry k st key = Some a \<Longrightarrow>
   register k key cbId cb overwrite st =
     (if overwrite \<or> \<not> mapHas (func (heap st a)) cbId then funcSet k key a cbId cb st else st)"
  by (simp add: register_def)

lemma register_new:
  "registry k st key = None \<Longrightarrow>
   register k key cbId cb overwrite st =
     funcSet k key (nextAddr st) cbId cb (openEntry k key st)"
  by (simp add: register_def mapHas_def)

lemma invariant_funcSet:
  assumes "invariant st"
  shows "invariant (funcSet k key a cbId cb st)"
proof -
  from assms have e: "invEntries st" and u: "invUnshared st" and w: "invWatches st"
    and i: "invIds st"
    by (simp_all add: invariant_def)
  have "invEntries (funcSet k key a cbId cb st)"
    using e by (simp add: invEntries_def mapSet_not_empty)
  moreover have "invUnshared (funcSet k key a cbId cb st)"
    using u by (simp add: invUnshared_def)
  moreover have "invWatches (funcSet k key a cbId cb st)"
    using w by (simp add: invWatches_def)
  moreover have "invIds (funcSet k key a cbId cb st)"
    using i by (simp add: invIds_def distinct_mapSet)
  ultimately show ?thesis by (simp add: invariant_def)
qed

lemma invariant_open:
  assumes "invariant st" and none: "registry k st key = None"
  shows "invariant (funcSet k key (nextAddr st) cbId cb (openEntry k key st))"
proof -
  let ?st' = "funcSet k key (nextAddr st) cbId cb (openEntry k key st)"
  from assms have e: "invEntries st" and u: "invUnshared st" and w: "invWatches st"
    and i: "invIds st"
    by (simp_all add: invariant_def)
  have fresh: "registry k' st key' \<noteq> Some (nextAddr st)" for k' key'
    using invEntriesD(1) [OF e, of k' key' "nextAddr st"] by auto
  have old: "registry k' st key' = Some a'"
    if "registry k' ?st' key' = Some a'" and "\<not> (k' = k \<and> key' = key)" for k' key' a'
    using that by (auto split: if_splits)
  have new: "a' = nextAddr st" if "registry k ?st' key = Some a'" for a'
    using that by simp
  have "invEntries ?st'"
    unfolding invEntries_def
  proof (intro allI impI)
    fix k' key' a'
    assume r: "registry k' ?st' key' = Some a'"
    show "a' < nextAddr ?st' \<and> mapEntries (func (heap ?st' a')) \<noteq> [] \<and>
      (\<exists>h. unsubscribe (heap ?st' a') = Some h \<and> ownWatch k' key' a' h \<in> set (watches ?st'))"
    proof (cases "k' = k \<and> key' = key")
      case True
      with r have "a' = nextAddr st" by simp
      with True show ?thesis by (simp add: mapSet_not_empty)
    next
      case False
      with r have r0: "registry k' st key' = Some a'" by (rule old)
      with fresh have ne: "a' \<noteq> nextAddr st" by auto
      from invEntriesD [OF e r0] ne show ?thesis by auto
    qed
  qed
  moreover have "invUnshared ?st'"
    unfolding invUnshared_def
  proof (intro allI impI)
    fix k1 key1 k2 key2 a'
    assume r1: "registry k1 ?st' key1 = Some a'" and r2: "registry k2 ?st' key2 = Some a'"
    show "k1 = k2 \<and> key1 = key2"
    proof (cases "k1 = k \<and> key1 = key")
      case True
      with r1 have a': "a' = nextAddr st" by simp
      show ?thesis
      proof (cases "k2 = k \<and> key2 = key")
        case True
        with \<open>k1 = k \<and> key1 = key\<close> show ?thesis by simp
      next
        case False
        with r2 have "registry k2 st key2 = Some a'" by (rule old)
        with a' fresh show ?thesis by auto
      qed
    next
      case False
      with r1 have r1': "registry k1 st key1 = Some a'" by (rule old)
      show ?thesis
      proof (cases "k2 = k \<and> key2 = key")
        case True
        with r2 have "a' = nextAddr st" by simp
        with r1' fresh show ?thesis by auto
      next
        case False
        with r2 have "registry k2 st key2 = Some a'" by (rule old)
        with r1' show ?thesis by (rule invUnsharedD [OF u])
      qed
    qed
  qed
  moreover have "invWatches ?st'"
    unfolding invWatches_def
  proof (intro conjI ballI)
    have "watchHandle w' \<noteq> nextHandle st" if "w' \<in> set (watches st)" for w'
      using invWatchesD(1) [OF w that] by simp
    with w show "distinct (map watchHandle (watches ?st'))"
      by (auto simp: invWatches_def)
  next
    fix w'
    assume "w' \<in> set (watches ?st')"
    then consider "w' = ownWatch k key (nextAddr st) (nextHandle st)" | "w' \<in> set (watches st)"
      by auto
    then show "watchHandle w' < nextHandle ?st'"
    proof cases
      case 1
      then show ?thesis by simp
    next
      case 2
      with invWatchesD(1) [OF w] show ?thesis by (simp add: less_Suc_eq)
    qed
  next
    fix w'
    assume "w' \<in> set (watches ?st')"
    then consider "w' = ownWatch k key (nextAddr st) (nextHandle st)" | "w' \<in> set (watches st)"
      by auto
    then show "\<exists>a. registry (watchKind w') ?st' (watchPath w') = Some a \<and>
      unsubscribe (heap ?st' a) = Some (watchHandle w')"
    proof cases
      case 1
      then show ?thesis by simp
    next
      case 2
      from invWatchesD(2) [OF w 2] obtain a'
        where a': "registry (watchKind w') st (watchPath w') = Some a'"
          "unsubscribe (heap st a') = Some (watchHandle w')"
        by blast
      from a'(1) none have "\<not> (watchKind w' = k \<and> watchPath w' = key)" by auto
      moreover from a'(1) fresh have "a' \<noteq> nextAddr st" by auto
      ultimately show ?thesis using a' by auto
    qed
  qed
  moreover have "invIds ?st'"
    using i by (simp add: invIds_def distinct_mapSet)
  ultimately show ?thesis by (simp add: invariant_def)
qed

lemma invariant_register:
  "invariant st \<Longrightarrow> invariant (register k key cbId cb overwrite st)"
  by (cases "registry k st key")
     (simp_all add: register_new register_existing invariant_open invariant_funcSet)

lemma unregister_missing: "registry k st key = None \<Longrightarrow> unregister k key cbId st = st"
  by (simp add: unregister_def)

lemma unregister_existing:
  "registry k st key = Some a \<Longrightarrow>
   unregister k key cbId st =
     (if mapEntries (mapDelete (func (heap st a)) cbId) = []
      then closeEntry k key a (funcDelete k key a cbId st)
      else funcDelete k key a cbId st)"
  by (simp add: unregister_def Let_def)

lemma invariant_funcDelete:
  assumes "invariant st" and "mapEntries (mapDelete (func (heap st a)) cbId) \<noteq> []"
  shows "invariant (funcDelete k key a cbId st)"
proof -
  from assms have e: "invEntries st" and u: "invUnshared st" and w: "invWatches st"
    and i: "invIds st"
    by (simp_all add: invariant_def)
  have "invEntries (funcDelete k key a cbId st)"
    using e assms(2) by (simp add: invEntries_def)
  moreover have "invUnshared (funcDelete k key a cbId st)"
    using u by (simp add: invUnshared_def)
  moreover have "invWatches (funcDelete k key a cbId st)"
    using w by (simp add: invWatches_def)
  moreover have "invIds (funcDelete k key a cbId st)"
    using i by (simp add: invIds_def distinct_mapDelete)
  ultimately show ?thesis by (simp add: invariant_def)
qed

lemma ownWatch_inject:
  "ownWatch k key a h = ownWatch k' key' a' h' \<Longrightarrow> k = k' \<and> key = key' \<and> h = h'"
  by (simp add: ownWatch_def)

lemma invariant_close:
  assumes "invariant st" and reg: "registry k st key = Some a"
  shows "invariant (closeEntry k key a (funcDelete k key a cbId st))"
proof -
  let ?st' = "closeEntry k key a (funcDelete k key a cbId st)"
  from assms have e: "invEntries st" and u: "invUnshared st" and w: "invWatches st"
    and i: "invIds st"
    by (simp_all add: invariant_def)
  from invEntriesD(3) [OF e reg] obtain h
    where h: "unsubscribe (heap st a) = Some h" "ownWatch k key a h \<in> set (watches st)"
    by blast
  have dist: "distinct (map watchHandle (watches st))"
    using w by (simp add: invWatches_def)
  have ws: "watches ?st' = filter (\<lambda>w. watchHandle w \<noteq> h) (watches st)"
    using h by simp
  have old: "registry k' st key' = Some a' \<and> \<not> (k' = k \<and> key' = key) \<and> a' \<noteq> a"
    if "registry k' ?st' key' = Some a'" for k' key' a'
  proof -
    from that have 1: "registry k' st key' = Some a'" and 2: "\<not> (k' = k \<and> key' = key)"
      by (auto split: if_splits)
    from invUnsharedD [OF u 1, of k key] reg 2 have "a' \<noteq> a" by auto
    with 1 2 show ?thesis by simp
  qed
  have "invEntries ?st'"
    unfolding invEntries_def
  proof (intro allI impI)
    fix k' key' a'
    assume "registry k' ?st' key' = Some a'"
    from old [OF this] have r0: "registry k' st key' = Some a'"
      and other: "\<not> (k' = k \<and> key' = key)" and ne: "a' \<noteq> a"
      by simp_all
    from invEntriesD(3) [OF e r0] obtain h'
      where h': "unsubscribe (heap st a') = Some h'" "ownWatch k' key' a' h' \<in> set (watches st)"
      by blast
    have "h' \<noteq> h"
    proof
      assume "h' = h"
      with watch_unique [OF dist h'(2) h(2)] have "ownWatch k' key' a' h' = ownWatch k key a h"
        by simp
      with other show False by (auto dest: ownWatch_inject)
    qed
    with h' have "ownWatch k' key' a' h' \<in> set (watches ?st')"
      by (simp add: h(1))
    with h'(1) invEntriesD(1,2) [OF e r0] ne
    show "a' < nextAddr ?st' \<and> mapEntries (func (heap ?st' a')) \<noteq> [] \<and>
      (\<exists>h. unsubscribe (heap ?st' a') = Some h \<and> ownWatch k' key' a' h \<in> set (watches ?st'))"
      by (simp add: h(1))
  qed
  moreover have "invUnshared ?st'"
    unfolding invUnshared_def
  proof (intro allI impI)
    fix k1 key1 k2 key2 a'
    assume "registry k1 ?st' key1 = Some a'" and "registry k2 ?st' key2 = Some a'"
    from old [OF this(1)] old [OF this(2)] show "k1 = k2 \<and> key1 = key2"
      using invUnsharedD [OF u] by blast
  qed
  moreover have "invWatches ?st'"
    unfolding invWatches_def
  proof (intro conjI ballI)
    show "distinct (map watchHandle (watches ?st'))"
      using dist by (simp add: h(1) distinct_map_filter)
  next
    fix w'
    assume "w' \<in> set (watches ?st')"
    then have "w' \<in> set (watches st)" by (simp add: h(1))
    with invWatchesD(1) [OF w] show "watchHandle w' < nextHandle ?st'" by simp
  next
    fix w'
    assume "w' \<in> set (watches ?st')"
    then have mem: "w' \<in> set (watches st)" and neq: "watchHandle w' \<noteq> h"
      by (simp_all add: h(1))
    from invWatchesD(2) [OF w mem] obtain a'
      where a': "registry (watchKind w') st (watchPath w') = Some a'"
        "unsubscribe (heap st a') = Some (watchHandle w')"
      by blast
    have "\<not> (watchKind w' = k \<and> watchPath w' = key)"
    proof
      assume "watchKind w' = k \<and> watchPath w' = key"
      with a' reg h(1) have "watchHandle w' = h" by simp
      with neq show False by simp
    qed
    with a' show "\<exists>a. registry (watchKind w') ?st' (watchPath w') = Some a \<and>
      unsubscribe (heap ?st' a) = Some (watchHandle w')"
      by auto
  qed
  moreover have "invIds ?st'"
    using i by (simp add: invIds_def distinct_mapDelete)
  ultimately show ?thesis by (simp add: invariant_def)
qed

lemma invariant_unregister: "invariant st \<Longrightarrow> invariant (unregister k key cbId st)"
  by (cases "registry k st key")
     (simp_all add: unregister_missing unregister_existing invariant_close invariant_funcDelete)

lemma invariant_exec: "invariant st \<Longrightarrow> invariant (exec act st)"
  by (cases act)
     (simp_all add: exec_generic invariant_register invariant_unregister invariant_afterId
        del: exec.simps)

lemma invariant_execAll: "invariant st \<Longrightarrow> invariant (execAll acts st)"
  by (induction acts arbitrary: st) (simp_all add: invariant_exec)

lemma invariant_trace: "invariant (st\<lparr> trace := tr \<rparr>) = invariant st"
  by (simp add: invariant_def invEntries_def invUnshared_def invWatches_def invIds_def)

lemma invariant_invoke: "invariant st \<Longrightarrow> invariant (invoke k key cbId cb snap st)"
  by (simp add: invoke_def invariant_execAll invariant_trace)

lemma invariant_mapForEach: "invariant st \<Longrightarrow> invariant (mapForEach k key a i snap st)"
proof (induction k key a i snap st rule: mapForEach.induct)
  case (1 k key a i snap st)
  show ?case
  proof (cases "i < length (func (heap st a))")
    case False
    with "1.prems" show ?thesis by (simp add: mapForEach.simps)
  next
    case True
    show ?thesis
    proof (cases "func (heap st a) ! i")
      case None
      with True "1.IH"(1) "1.prems" show ?thesis
        by (simp add: mapForEach.simps [of k key a i])
    next
      case (Some e)
      with True "1.IH"(2) "1.prems" show ?thesis
        by (simp add: mapForEach.simps [of k key a i] invariant_invoke)
    qed
  qed
qed

lemma invariant_deliver: "invariant st \<Longrightarrow> invariant (deliver h snap st)"
  by (simp add: deliver_def invariant_mapForEach split: option.split listener.split)

lemma invariant_step: "invariant st \<Longrightarrow> invariant (step s st)"
  by (cases s) (simp_all add: invariant_exec invariant_deliver del: exec.simps)

lemma invariant_run: "invariant st \<Longrightarrow> invariant (run ss st)"
  by (induction ss arbitrary: st) (simp_all add: invariant_step)

lemma invariant_reachable: "invariant (run ss (init gen))"
  by (simp add: invariant_run invariant_init)

subsection \<open>One watch per document and per collection\<close>

lemma filter_at_most_one:
  "distinct (map f xs) \<Longrightarrow> (\<And>x. x \<in> set xs \<Longrightarrow> P x \<Longrightarrow> f x = c) \<Longrightarrow>
   length (filter P xs) \<le> Suc 0"
proof (induction xs)
  case Nil
  show ?case by simp
next
  case (Cons x xs)
  show ?case
  proof (cases "P x")
    case False
    with Cons show ?thesis by simp
  next
    case True
    with Cons.prems(2) have fx: "f x = c" by simp
    have "filter P xs = []"
    proof (rule ccontr)
      assume "filter P xs \<noteq> []"
      then obtain y where y: "y \<in> set xs" "P y"
        by (metis filter_False)
      with Cons.prems(2) have "f y = c" by simp
      with fx have "f y = f x" by simp
      with y(1) have "f x \<in> f ` set xs" by (metis imageI)
      with Cons.prems(1) show False by simp
    qed
    with True show ?thesis by simp
  qed
qed

lemma openHandles_at_most_one:
  assumes "invariant st"
  shows "length (openHandles st k key) \<le> 1"
proof -
  from assms have w: "invWatches st" by (simp add: invariant_def)
  then have dist: "distinct (map watchHandle (watches st))"
    by (simp add: invWatches_def)
  show ?thesis
  proof (cases "registry k st key")
    case None
    have "filter (\<lambda>w. watchKind w = k \<and> watchPath w = key) (watches st) = []"
      using invWatchesD(2) [OF w] None by (fastforce simp: filter_empty_conv)
    then show ?thesis by (simp add: openHandles_def)
  next
    case (Some a)
    have "watchHandle x = the (unsubscribe (heap st a))"
      if "x \<in> set (watches st)" "watchKind x = k \<and> watchPath x = key" for x
      using invWatchesD(2) [OF w that(1)] that(2) Some by auto
    with dist show ?thesis
      unfolding openHandles_def length_map One_nat_def
      by (rule filter_at_most_one)
  qed
qed

lemma watches_register:
  "watches (register k key cbId cb overwrite st) =
     (if registry k st key = None
      then watches st @ [ownWatch k key (nextAddr st) (nextHandle st)] else watches st)"
  by (cases "registry k st key") (auto simp: register_new register_existing)

text \<open>
  C1 (at most one watch). After every finite sequence of calls of the public methods and
  of deliveries, at most one watch is open on a document and at most one on a collection;
  addCallback and addCollectionCallback open a watch exactly when the registry has no
  entry for the key, and otherwise leave the open watches as they are.
\<close>

theorem at_most_one_watch:
  "length (openHandles (run ss (init gen)) k key) \<le> 1 \<and>
   watches (snd (addCallback path documentId cb callbackId overwrite st)) =
     (if callbacks st (path @ ''/'' @ documentId) = None
      then watches st @
        [\<lparr> watchHandle = nextHandle st, watchKind = Doc, watchPath = path @ ''/'' @ documentId,
           watchListener = DocListener (path @ ''/'' @ documentId) \<rparr>]
      else watches st) \<and>
   watches (snd (addCollectionCallback path cb callbackId overwrite st)) =
     (if collectionCallbacks st path = None
      then watches st @
        [\<lparr> watchHandle = nextHandle st, watchKind = Col, watchPath = path,
           watchListener = ColListener (nextAddr st) \<rparr>]
      else watches st)"
proof (intro conjI)
  show "length (openHandles (run ss (init gen)) k key) \<le> 1"
    by (rule openHandles_at_most_one) (rule invariant_reachable)
next
  show "watches (snd (addCallback path documentId cb callbackId overwrite st)) =
     (if callbacks st (path @ ''/'' @ documentId) = None
      then watches st @
        [\<lparr> watchHandle = nextHandle st, watchKind = Doc, watchPath = path @ ''/'' @ documentId,
           watchListener = DocListener (path @ ''/'' @ documentId) \<rparr>]
      else watches st)"
    using afterId_fields(2) [of Doc callbackId st]
    by (simp add: addCallback_register watches_register ownWatch_def del: afterId_fields(2))
next
  show "watches (snd (addCollectionCallback path cb callbackId overwrite st)) =
     (if collectionCallbacks st path = None
      then watches st @
        [\<lparr> watchHandle = nextHandle st, watchKind = Col, watchPath = path,
           watchListener = ColListener (nextAddr st) \<rparr>]
      else watches st)"
    using afterId_fields(2) [of Col callbackId st]
    by (simp add: addCollectionCallback_register watches_register ownWatch_def
          del: afterId_fields(2))
qed


theorem at_most_one_watch_witness:
  "length (openHandles
      (run [Call (AddCallback ''users'' ''u1'' (Callback 0 [] False) None False),
            Call (AddCallback ''users'' ''u1'' (Callback 1 [] False) None False),
            Deliver 0 7]
         (init (\<lambda>n. replicate (Suc n) CHR ''g''))) Doc ''users/u1'') \<le> 1 \<and>
   watches (snd (addCallback ''users'' ''u1'' (Callback 2 [] False) None False
       (init (\<lambda>n. replicate (Suc n) CHR ''g'')))) =
     (if callbacks (init (\<lambda>n. replicate (Suc n) CHR ''g'')) (''users'' @ ''/'' @ ''u1'') = None
      then watches (init (\<lambda>n. replicate (Suc n) CHR ''g'')) @
        [\<lparr> watchHandle = nextHandle (init (\<lambda>n. replicate (Suc n) CHR ''g'')),
           watchKind = Doc, watchPath = ''users'' @ ''/'' @ ''u1'',
           watchListener = DocListener (''users'' @ ''/'' @ ''u1'') \<rparr>]
      else watches (init (\<lambda>n. replicate (Suc n) CHR ''g''))) \<and>
   watches (snd (addCollectionCallback ''users'' (Callback 2 [] False) None False
       (init (\<lambda>n. replicate (Suc n) CHR ''g'')))) =
     (if collectionCallbacks (init (\<lambda>n. replicate (Suc n) CHR ''g'')) ''users'' = None
      then watches (init (\<lambda>n. replicate (Suc n) CHR ''g'')) @
        [\<lparr> watchHandle = nextHandle (init (\<lambda>n. replicate (Suc n) CHR ''g'')),
           watchKind = Col, watchPath = ''users'',
           watchListener = ColListener (nextAddr (init (\<lambda>n. replicate (Suc n) CHR ''g''))) \<rparr>]
      else watches (init (\<lambda>n. replicate (Suc n) CHR ''g'')))"
  by (rule at_most_one_watch)

subsection \<open>The callbacks registered after a call\<close>

lemma registered_afterId [simp]: "registered (afterId callbackId st) k key = registered st k key"
  by (simp add: registered_def cong: option.case_cong)

lemma registered_None: "registry k st key = None \<Longrightarrow> registered st k key = []"
  by (simp add: registered_def)

lemma mapHas_registered:
  "registry k st key = Some a \<Longrightarrow>
   mapHas (func (heap st a)) cbId \<longleftrightarrow> cbId \<in> set (map fst (registered st k key))"
  by (simp add: registered_def mapHas_def)

lemma invIdsD: "invariant st \<Longrightarrow> distinct (map fst (mapEntries (func (heap st a))))"
  by (simp add: invariant_def invIds_def)

lemma registered_register:
  assumes "invariant st"
  shows "registered (register k key cbId cb overwrite st) k' key' =
     (if k' = k \<and> key' = key
      then (if cbId \<in> set (map fst (registered st k key))
            then (if overwrite
                  then map (\<lambda>e. if fst e = cbId then (cbId, cb) else e) (registered st k key)
                  else registered st k key)
            else registered st k key @ [(cbId, cb)])
      else registered st k' key')"
proof (cases "registry k st key")
  case None
  from assms have e: "invEntries st" by (simp add: invariant_def)
  have fresh: "registry k' st key' \<noteq> Some (nextAddr st)"
    using invEntriesD(1) [OF e, of k' key' "nextAddr st"] by auto
  show ?thesis
  proof (cases "k' = k \<and> key' = key")
    case True
    with None show ?thesis
      by (simp add: register_new registered_def)
  next
    case False
    with None fresh show ?thesis
      by (auto simp: register_new registered_def split: option.split)
  qed
next
  case (Some a)
  from assms have u: "invUnshared st" by (simp add: invariant_def)
  show ?thesis
  proof (cases "k' = k \<and> key' = key")
    case True
    with Some invIdsD [OF assms, of a] show ?thesis
      by (simp add: register_existing registered_def mapSet_existing mapHas_def)
  next
    case False
    have "a' \<noteq> a" if "registry k' st key' = Some a'" for a'
      using invUnsharedD [OF u _ Some, of k' key'] that False by auto
    with Some False show ?thesis
      by (auto simp: register_existing registered_def split: option.split)
  qed
qed

lemma registered_unregister:
  assumes "invariant st"
  shows "registered (unregister k key cbId st) k' key' =
     (if k' = k \<and> key' = key
      then filter (\<lambda>e. fst e \<noteq> cbId) (registered st k key)
      else registered st k' key')"
proof (cases "registry k st key")
  case None
  then show ?thesis
    by (auto simp: unregister_missing registered_def)
next
  case (Some a)
  from assms have u: "invUnshared st" by (simp add: invariant_def)
  show ?thesis
  proof (cases "k' = k \<and> key' = key")
    case True
    with Some invIdsD [OF assms, of a] show ?thesis
      by (simp add: unregister_existing registered_def mapEntries_mapDelete)
  next
    case False
    have "a' \<noteq> a" if "registry k' st key' = Some a'" for a'
      using invUnsharedD [OF u _ Some, of k' key'] that False by auto
    with Some False show ?thesis
      by (auto simp: unregister_existing registered_def split: option.split)
  qed
qed

lemma funcDelete_absent: "\<not> mapHas (func (heap st a)) cbId \<Longrightarrow> funcDelete k key a cbId st = st"
  by (simp add: funcDelete_def mapDelete_absent)

lemma unregister_absent:
  assumes "invariant st" and "cbId \<notin> set (map fst (registered st k key))"
  shows "unregister k key cbId st = st"
proof (cases "registry k st key")
  case None
  then show ?thesis by (simp add: unregister_missing)
next
  case (Some a)
  from assms(1) have e: "invEntries st" by (simp add: invariant_def)
  from assms(2) Some have absent: "\<not> mapHas (func (heap st a)) cbId"
    by (simp add: mapHas_registered)
  with invEntriesD(2) [OF e Some] Some show ?thesis
    by (simp add: unregister_existing funcDelete_absent mapDelete_absent)
qed

lemma unregister_idem:
  assumes "invariant st"
  shows "unregister k key cbId (unregister k key cbId st) = unregister k key cbId st"
proof (rule unregister_absent)
  show "invariant (unregister k key cbId st)"
    using assms by (rule invariant_unregister)
  show "cbId \<notin> set (map fst (registered (unregister k key cbId st) k key))"
    by (auto simp: registered_unregister [OF assms])
qed


text \<open>
  C5 (removal of what is not there). In every reachable state, removeCallback and
  removeCollectionCallback with an id that is not registered under the key (the key has an
  entry without that id, or has no entry at all) return the state they were given: no
  entry is created, removed or changed and no watch is closed. The methods have no
  failing branch, so nothing is raised.
\<close>

theorem unregister_absent_noop:
  "(cbId \<notin> set (map fst (registered (run ss (init gen)) Doc (path @ ''/'' @ documentId))) \<longrightarrow>
      removeCallback path documentId cbId (run ss (init gen)) = run ss (init gen)) \<and>
   (cbId \<notin> set (map fst (registered (run ss (init gen)) Col path)) \<longrightarrow>
      removeCollectionCallback path cbId (run ss (init gen)) = run ss (init gen))"
  by (simp add: removeCallback_unregister removeCollectionCallback_unregister
        unregister_absent invariant_reachable)

theorem unregister_absent_noop_witness:
  "''zz'' \<notin> set (map fst (registered
      (run [Call (AddCallback ''users'' ''u1'' (Callback 0 [] False) (Some ''a'') False)]
         (init (\<lambda>n. replicate (Suc n) CHR ''g''))) Doc (''users'' @ ''/'' @ ''u1''))) \<and>
   removeCallback ''users'' ''u1'' ''zz''
      (run [Call (AddCallback ''users'' ''u1'' (Callback 0 [] False) (Some ''a'') False)]
         (init (\<lambda>n. replicate (Suc n) CHR ''g''))) =
      run [Call (AddCallback ''users'' ''u1'' (Callback 0 [] False) (Some ''a'') False)]
         (init (\<lambda>n. replicate (Suc n) CHR ''g'')) \<and>
   ''zz'' \<notin> set (map fst (registered
      (run [Call (AddCallback ''users'' ''u1'' (Callback 0 [] False) (Some ''a'') False)]
         (init (\<lambda>n. replicate (Suc n) CHR ''g''))) Col ''users'')) \<and>
   removeCollectionCallback ''users'' ''zz''
      (run [Call (AddCallback ''users'' ''u1'' (Callback 0 [] False) (Some ''a'') False)]
         (init (\<lambda>n. replicate (Suc n) CHR ''g''))) =
      run [Call (AddCallback ''users'' ''u1'' (Callback 0 [] False) (Some ''a'') False)]
         (init (\<lambda>n. replicate (Suc n) CHR ''g''))"
proof -
  let ?S = "run [Call (AddCallback ''users'' ''u1'' (Callback 0 [] False) (Some ''a'') False)]
    (init (\<lambda>n. replicate (Suc n) CHR ''g''))"
  have h1: "''zz'' \<notin> set (map fst (registered ?S Doc (''users'' @ ''/'' @ ''u1'')))"
    by (simp add: eval)
  have h2: "''zz'' \<notin> set (map fst (registered ?S Col ''users''))"
    by (simp add: eval)
  from h1 h2
    unregister_absent_noop [where cbId = "''zz''" and path = "''users''" and documentId = "''u1''"
      and ss = "[Call (AddCallback ''users'' ''u1'' (Callback 0 [] False) (Some ''a'') False)]"
      and gen = "\<lambda>n. replicate (Suc n) CHR ''g''"]
  show ?thesis by blast
qed

text \<open>
  C10 (unregistration is idempotent). In every reachable state, removing the same id under
  the same key twice gives the state that removing it once gives, on the document path
  and on the collection path.
\<close>

theorem unregister_idempotent:
  "removeCallback path documentId cbId
      (removeCallback path documentId cbId (run ss (init gen))) =
     removeCallback path documentId cbId (run ss (init gen)) \<and>
   removeCollectionCallback path cbId (removeCollectionCallback path cbId (run ss (init gen))) =
     removeCollectionCallback path cbId (run ss (init gen))"
  by (simp add: removeCallback_unregister removeCollectionCallback_unregister
        unregister_idem invariant_reachable)

theorem unregister_idempotent_witness:
  "removeCallback ''users'' ''u1'' ''a''
      (removeCallback ''users'' ''u1'' ''a''
        (run [Call (AddCallback ''users'' ''u1'' (Callback 0 [] False) (Some ''a'') False),
              Call (AddCallback ''users'' ''u1'' (Callback 1 [] False) (Some ''b'') False)]
           (init (\<lambda>n. replicate (Suc n) CHR ''g'')))) =
     removeCallback ''users'' ''u1'' ''a''
        (run [Call (AddCallback ''users'' ''u1'' (Callback 0 [] False) (Some ''a'') False),
              Call (AddCallback ''users'' ''u1'' (Callback 1 [] False) (Some ''b'') False)]
           (init (\<lambda>n. replicate (Suc n) CHR ''g''))) \<and>
   removeCollectionCallback ''users'' ''a''
      (removeCollectionCallback ''users'' ''a''
        (run [Call (AddCallback ''users'' ''u1'' (Callback 0 [] False) (Some ''a'') False),
              Call (AddCallback ''users'' ''u1'' (Callback 1 [] False) (Some ''b'') False)]
           (init (\<lambda>n. replicate (Suc n) CHR ''g'')))) =
     removeCollectionCallback ''users'' ''a''
        (run [Call (AddCallback ''users'' ''u1'' (Callback 0 [] False) (Some ''a'') False),
              Call (AddCallback ''users'' ''u1'' (Callback 1 [] False) (Some ''b'') False)]
           (init (\<lambda>n. replicate (Suc n) CHR ''g'')))"
  by (rule unregister_idempotent)

subsection \<open>Registering under an id that is taken\<close>

lemma registry_of_registered:
  "cbId \<in> set (map fst (registered st k key)) \<Longrightarrow> \<exists>a. registry k st key = Some a"
  by (cases "registry k st key") (simp_all add: registered_def)

lemma register_collision:
  assumes "cbId \<in> set (map fst (registered st k key))"
  shows "register k key cbId cb False st = st"
    and "map_of (registered (register k key cbId cb True st) k key) =
      (map_of (registered st k key))(cbId \<mapsto> cb)"
proof -
  from registry_of_registered [OF assms] obtain a where a: "registry k st key = Some a" ..
  with assms have "mapHas (func (heap st a)) cbId"
    by (simp add: mapHas_registered)
  with a show "register k key cbId cb False st = st"
    by (simp add: register_existing)
  from a show "map_of (registered (register k key cbId cb True st) k key) =
      (map_of (registered st k key))(cbId \<mapsto> cb)"
    by (simp add: register_existing registered_def map_of_mapSet)
qed

text \<open>
  C4 (collision of ids). When the id given to addCallback or addCollectionCallback is
  already registered under the key: with overwrite false the method returns the id and
  the state it was given (the earlier callback stays bound to the id, nothing is raised);
  with overwrite true it returns the id and the id is bound to the new callback, every
  other id of the key keeping its callback.
\<close>

theorem overwrite_semantics:
  "(cbId \<in> set (map fst (registered st Doc (path @ ''/'' @ documentId))) \<longrightarrow>
      addCallback path documentId cb (Some cbId) False st = (cbId, st) \<and>
      fst (addCallback path documentId cb (Some cbId) True st) = cbId \<and>
      map_of (registered (snd (addCallback path documentId cb (Some cbId) True st)) Doc
          (path @ ''/'' @ documentId)) =
        (map_of (registered st Doc (path @ ''/'' @ documentId)))(cbId \<mapsto> cb)) \<and>
   (cbId \<in> set (map fst (registered st Col path)) \<longrightarrow>
      addCollectionCallback path cb (Some cbId) False st = (cbId, st) \<and>
      fst (addCollectionCallback path cb (Some cbId) True st) = cbId \<and>
      map_of (registered (snd (addCollectionCallback path cb (Some cbId) True st)) Col path) =
        (map_of (registered st Col path))(cbId \<mapsto> cb))"
  by (simp add: addCallback_register addCollectionCallback_register register_collision)

theorem overwrite_semantics_witness:
  "''a'' \<in> set (map fst (registered
      (run [Call (AddCallback ''users'' ''u1'' (Callback 0 [] False) (Some ''a'') False),
            Call (AddCollectionCallback ''users'' (Callback 1 [] False) (Some ''a'') False)]
         (init (\<lambda>n. replicate (Suc n) CHR ''g''))) Doc (''users'' @ ''/'' @ ''u1''))) \<and>
   addCallback ''users'' ''u1'' (Callback 2 [] False) (Some ''a'') False
      (run [Call (AddCallback ''users'' ''u1'' (Callback 0 [] False) (Some ''a'') False),
            Call (AddCollectionCallback ''users'' (Callback 1 [] False) (Some ''a'') False)]
         (init (\<lambda>n. replicate (Suc n) CHR ''g''))) =
     (''a'',
      run [Call (AddCallback ''users'' ''u1'' (Callback 0 [] False) (Some ''a'') False),
            Call (AddCollectionCallback ''users'' (Callback 1 [] False) (Some ''a'') False)]
         (init (\<lambda>n. replicate (Suc n) CHR ''g''))) \<and>
   map_of (registered (snd (addCallback ''users'' ''u1'' (Callback 2 [] False) (Some ''a'') True
      (run [Call (AddCallback ''users'' ''u1'' (Callback 0 [] False) (Some ''a'') False),
            Call (AddCollectionCallback ''users'' (Callback 1 [] False) (Some ''a'') False)]
         (init (\<lambda>n. replicate (Suc n) CHR ''g''))))) Doc (''users'' @ ''/'' @ ''u1'')) ''a'' =
     Some (Callback 2 [] False) \<and>
   ''a'' \<in> set (map fst (registered
      (run [Call (AddCallback ''users'' ''u1'' (Callback 0 [] False) (Some ''a'') False),
            Call (AddCollectionCallback ''users'' (Callback 1 [] False) (Some ''a'') False)]
         (init (\<lambda>n. replicate (Suc n) CHR ''g''))) Col ''users'')) \<and>
   addCollectionCallback ''users'' (Callback 2 [] False) (Some ''a'') False
      (run [Call (AddCallback ''users'' ''u1'' (Callback 0 [] False) (Some ''a'') False),
            Call (AddCollectionCallback ''users'' (Callback 1 [] False) (Some ''a'') False)]
         (init (\<lambda>n. replicate (Suc n) CHR ''g''))) =
     (''a'',
      run [Call (AddCallback ''users'' ''u1'' (Callback 0 [] False) (Some ''a'') False),
            Call (AddCollectionCallback ''users'' (Callback 1 [] False) (Some ''a'') False)]
         (init (\<lambda>n. replicate (Suc n) CHR ''g''))) \<and>
   map_of (registered (snd (addCollectionCallback ''users'' (Callback 2 [] False) (Some ''a'') True
      (run [Call (AddCallback ''users'' ''u1'' (Callback 0 [] False) (Some ''a'') False),
            Call (AddCollectionCallback ''users'' (Callback 1 [] False) (Some ''a'') False)]
         (init (\<lambda>n. replicate (Suc n) CHR ''g''))))) Col ''users'') ''a'' =
     Some (Callback 2 [] False)"
proof -
  let ?S = "run [Call (AddCallback ''users'' ''u1'' (Callback 0 [] False) (Some ''a'') False),
            Call (AddCollectionCallback ''users'' (Callback 1 [] False) (Some ''a'') False)]
         (init (\<lambda>n. replicate (Suc n) CHR ''g''))"
  have h1: "''a'' \<in> set (map fst (registered ?S Doc (''users'' @ ''/'' @ ''u1'')))"
    by (simp add: eval)
  have h2: "''a'' \<in> set (map fst (registered ?S Col ''users''))"
    by (simp add: eval)
  note inst = overwrite_semantics [where cbId = "''a''" and path = "''users''"
      and documentId = "''u1''" and cb = "Callback 2 [] False" and st = ?S]
  from inst h1 have d: "addCallback ''users'' ''u1'' (Callback 2 [] False) (Some ''a'') False ?S = (''a'', ?S)"
    "map_of (registered (snd (addCallback ''users'' ''u1'' (Callback 2 [] False) (Some ''a'') True ?S)) Doc
          (''users'' @ ''/'' @ ''u1'')) =
        (map_of (registered ?S Doc (''users'' @ ''/'' @ ''u1'')))(''a'' \<mapsto> Callback 2 [] False)"
    by blast+
  from inst h2 have c: "addCollectionCallback ''users'' (Callback 2 [] False) (Some ''a'') False ?S = (''a'', ?S)"
    "map_of (registered (snd (addCollectionCallback ''users'' (Callback 2 [] False) (Some ''a'') True ?S)) Col
          ''users'') =
        (map_of (registered ?S Col ''users''))(''a'' \<mapsto> Callback 2 [] False)"
    by blast+
  from d(2) have d2: "map_of (registered (snd (addCallback ''users'' ''u1'' (Callback 2 [] False) (Some ''a'') True ?S)) Doc
          (''users'' @ ''/'' @ ''u1'')) ''a'' = Some (Callback 2 [] False)"
    by (simp only: fun_upd_same)
  from c(2) have c2: "map_of (registered (snd (addCollectionCallback ''users'' (Callback 2 [] False) (Some ''a'') True ?S)) Col
          ''users'') ''a'' = Some (Callback 2 [] False)"
    by (simp only: fun_upd_same)
  from h1 h2 d(1) d2 c(1) c2 show ?thesis by blast
qed

subsection \<open>The two registries do not interfere\<close>

lemma heap_other:
  "a' \<noteq> a \<Longrightarrow> heap (funcSet k key a cbId cb st) a' = heap st a'"
  "a' \<noteq> a \<Longrightarrow> heap (funcDelete k key a cbId st) a' = heap st a'"
  "a' \<noteq> nextAddr st \<Longrightarrow> heap (openEntry k key st) a' = heap st a'"
  by (cases k; simp add: funcSet_def funcDelete_def openEntry_def)+

lemma pathState_afterId [simp]: "pathState k (afterId callbackId st) = pathState k st"
  by (cases callbackId) (simp_all add: pathState_def registryView_def tick_def fun_eq_iff)

lemma pathState_register:
  assumes "invariant st" and "k' \<noteq> k"
  shows "pathState k' (register k key cbId cb overwrite st) = pathState k' st"
proof -
  from assms(1) have e: "invEntries st" and u: "invUnshared st"
    by (simp_all add: invariant_def)
  have fresh: "a' \<noteq> nextAddr st" if "registry k' st key' = Some a'" for key' a'
    using invEntriesD(1) [OF e that] by simp
  show ?thesis
  proof (cases "registry k st key")
    case None
    have "registryView k' (funcSet k key (nextAddr st) cbId cb (openEntry k key st)) key' =
        registryView k' st key'" for key'
      using assms(2) fresh [of key']
      by (cases "registry k' st key'") (simp_all add: registryView_def heap_other)
    with None assms(2) show ?thesis
      by (simp add: register_new pathState_def fun_eq_iff)
  next
    case (Some a)
    have other: "a' \<noteq> a" if "registry k' st key' = Some a'" for key' a'
      using invUnsharedD [OF u that, of k key] Some assms(2) by auto
    have "registryView k' (funcSet k key a cbId cb st) key' = registryView k' st key'" for key'
      using other [of key']
      by (cases "registry k' st key'") (simp_all add: registryView_def heap_other)
    with Some show ?thesis
      by (simp add: register_existing pathState_def fun_eq_iff)
  qed
qed

lemma pathState_unregister:
  assumes "invariant st" and "k' \<noteq> k"
  shows "pathState k' (unregister k key cbId st) = pathState k' st"
proof (cases "registry k st key")
  case None
  then show ?thesis by (simp add: unregister_missing)
next
  case (Some a)
  from assms(1) have e: "invEntries st" and u: "invUnshared st" and w: "invWatches st"
    by (simp_all add: invariant_def)
  have other: "a' \<noteq> a" if "registry k' st key' = Some a'" for key' a'
    using invUnsharedD [OF u that, of k key] Some assms(2) by auto
  have view: "registryView k' (funcDelete k key a cbId st) key' = registryView k' st key'"
    for key'
    using other [of key']
    by (cases "registry k' st key'") (simp_all add: registryView_def heap_other)
  from invEntriesD(3) [OF e Some] obtain h
    where h: "unsubscribe (heap st a) = Some h" "ownWatch k key a h \<in> set (watches st)"
    by blast
  have dist: "distinct (map watchHandle (watches st))"
    using w by (simp add: invWatches_def)
  have "watchHandle x \<noteq> h" if "x \<in> set (watches st)" "watchKind x = k'" for x
  proof
    assume "watchHandle x = h"
    with watch_unique [OF dist that(1) h(2)] have "x = ownWatch k key a h" by simp
    with that(2) assms(2) show False by simp
  qed
  then have ws: "filter (\<lambda>x. watchKind x = k') (filter (\<lambda>x. watchHandle x \<noteq> h) (watches st)) =
      filter (\<lambda>x. watchKind x = k') (watches st)"
    by (auto intro: filter_cong)
  have "registryView k' (closeEntry k key a (funcDelete k key a cbId st)) key' =
      registryView k' st key'" for key'
    using view [of key'] assms(2) by (simp add: registryView_def)
  with view ws h(1) Some show ?thesis
    by (simp add: unregister_existing pathState_def fun_eq_iff)
qed

text \<open>
  C6 (the two registries are apart). In every reachable state, an object of the document
  registry is not an object of the collection registry; a call of addCallback or
  removeCallback leaves the collection path as it was (the collection registry, the
  objects in it, the open collection watches), and a call of addCollectionCallback or
  removeCollectionCallback leaves the document path as it was. This holds for all keys,
  so also when the document key and the collection key are the same string.
\<close>

theorem paths_are_apart:
  "(callbacks (run ss (init gen)) key = Some a \<longrightarrow>
      collectionCallbacks (run ss (init gen)) key' \<noteq> Some a) \<and>
   pathState Col (snd (addCallback path documentId cb callbackId overwrite (run ss (init gen)))) =
     pathState Col (run ss (init gen)) \<and>
   pathState Col (removeCallback path documentId cbId (run ss (init gen))) =
     pathState Col (run ss (init gen)) \<and>
   pathState Doc (snd (addCollectionCallback path' cb callbackId overwrite (run ss (init gen)))) =
     pathState Doc (run ss (init gen)) \<and>
   pathState Doc (removeCollectionCallback path' cbId (run ss (init gen))) =
     pathState Doc (run ss (init gen))"
proof -
  have "invUnshared (run ss (init gen))"
    using invariant_reachable [of ss gen] by (simp add: invariant_def)
  from invUnsharedD [OF this, of Doc key a Col key']
  have "callbacks (run ss (init gen)) key = Some a \<longrightarrow>
      collectionCallbacks (run ss (init gen)) key' \<noteq> Some a"
    by auto
  then show ?thesis
    by (simp add: addCallback_register addCollectionCallback_register
          removeCallback_unregister removeCollectionCallback_unregister
          pathState_register pathState_unregister invariant_reachable invariant_afterId)
qed

theorem paths_are_apart_witness:
  "callbacks twins ''users/u1'' = Some 0 \<and>
   collectionCallbacks twins ''users/u1'' \<noteq> Some 0 \<and>
   pathState Col (snd (addCallback ''users'' ''u1'' (Callback 2 [] False) (Some ''b'') False twins)) =
     pathState Col twins \<and>
   pathState Col (removeCallback ''users'' ''u1'' ''a'' twins) = pathState Col twins \<and>
   pathState Doc (snd (addCollectionCallback ''users/u1'' (Callback 2 [] False) (Some ''b'') False twins)) =
     pathState Doc twins \<and>
   pathState Doc (removeCollectionCallback ''users/u1'' ''a'' twins) = pathState Doc twins \<and>
   registered (removeCallback ''users'' ''u1'' ''a'' twins) Col ''users/u1'' =
     [(''a'', Callback 1 [] False)] \<and>
   registered (removeCollectionCallback ''users/u1'' ''a'' twins) Doc ''users/u1'' =
     [(''a'', Callback 0 [] False)]"
proof -
  have h: "callbacks twins ''users/u1'' = Some 0"
    by (simp add: twins_eval eval)
  have r: "registered (removeCallback ''users'' ''u1'' ''a'' twins) Col ''users/u1'' =
     [(''a'', Callback 1 [] False)]"
    "registered (removeCollectionCallback ''users/u1'' ''a'' twins) Doc ''users/u1'' =
     [(''a'', Callback 0 [] False)]"
    by (simp_all add: twins_eval eval)
  note inst = paths_are_apart [where ss = twinsRun and gen = sampleIds, folded twins_def,
      where key = "''users/u1''" and a = 0 and key' = "''users/u1''"
      and path = "''users''" and documentId = "''u1''" and cb = "Callback 2 [] False"
      and callbackId = "Some ''b''" and overwrite = False and cbId = "''a''"
      and path' = "''users/u1''"]
  from inst h r show ?thesis by blast
qed

subsection \<open>Entries are never empty and own their watch\<close>

lemma openHandles_registry:
  assumes "invariant st"
  shows "map Some (openHandles st k key) =
    (case registry k st key of None \<Rightarrow> [] | Some a \<Rightarrow> [unsubscribe (heap st a)])"
proof (cases "registry k st key")
  case None
  from assms have w: "invWatches st" by (simp add: invariant_def)
  have "filter (\<lambda>w. watchKind w = k \<and> watchPath w = key) (watches st) = []"
    using invWatchesD(2) [OF w] None by (fastforce simp: filter_empty_conv)
  with None show ?thesis by (simp add: openHandles_def)
next
  case (Some a)
  from assms have e: "invEntries st" by (simp add: invariant_def)
  from invEntriesD(3) [OF e Some] obtain h
    where h: "unsubscribe (heap st a) = Some h" "ownWatch k key a h \<in> set (watches st)"
    by blast
  from h(2) have mem: "h \<in> set (openHandles st k key)"
    by (force simp: openHandles_def)
  have "length (openHandles st k key) \<le> 1"
    using assms by (rule openHandles_at_most_one)
  with mem have "openHandles st k key = [h]"
    by (cases "openHandles st k key") auto
  with Some h(1) show ?thesis by simp
qed

lemma entry_not_empty:
  "invariant st \<Longrightarrow> registry k st key = Some a \<Longrightarrow> 1 \<le> mapSize (func (heap st a))"
  using invEntriesD(2) [of st k key a]
  by (cases "mapEntries (func (heap st a))") (simp_all add: invariant_def mapSize_def)

lemma first_registration:
  assumes "invariant st" and "registry k st key = None"
  shows "registered (register k key cbId cb overwrite st) k key = [(cbId, cb)]"
    and "openHandles (register k key cbId cb overwrite st) k key = [nextHandle st]"
proof -
  from assms show "registered (register k key cbId cb overwrite st) k key = [(cbId, cb)]"
    by (simp add: registered_register registered_None)
  have "invariant (register k key cbId cb overwrite st)"
    using assms(1) by (rule invariant_register)
  from openHandles_registry [OF this, of k key] assms(2)
  show "openHandles (register k key cbId cb overwrite st) k key = [nextHandle st]"
    by (simp add: register_new map_eq_Cons_conv)
qed

lemma last_removal:
  assumes "invariant st" and "map fst (registered st k key) = [cbId]"
  shows "registry k (unregister k key cbId st) key = None"
    and "openHandles (unregister k key cbId st) k key = []"
proof -
  from assms(2) obtain a where a: "registry k st key = Some a"
    by (cases "registry k st key") (simp_all add: registered_def)
  from assms a have "mapEntries (mapDelete (func (heap st a)) cbId) = []"
    using invIdsD [OF assms(1), of a]
    by (auto simp: registered_def mapEntries_mapDelete filter_empty_conv)
  with a show none: "registry k (unregister k key cbId st) key = None"
    by (simp add: unregister_existing)
  have "invariant (unregister k key cbId st)"
    using assms(1) by (rule invariant_unregister)
  from openHandles_registry [OF this, of k key] none
  show "openHandles (unregister k key cbId st) k key = []"
    by simp
qed


text \<open>
  C2 (no empty entry, eager close). In every reachable state an entry of either registry
  has at least one callback and the one watch open on its key is its own, and a key
  without entry has no open watch. An entry is created, with its watch, by the add call
  that finds no entry for the key, and it then holds exactly the callback of that call.
  The remove call that takes the last callback of a key away removes the entry from the
  registry and closes its watch in the same call.
\<close>

theorem entries_never_empty:
  "(registry k (run ss (init gen)) key = Some a \<longrightarrow>
      1 \<le> mapSize (func (heap (run ss (init gen)) a)) \<and>
      map Some (openHandles (run ss (init gen)) k key) = [unsubscribe (heap (run ss (init gen)) a)]) \<and>
   (registry k' (run ss (init gen)) key' = None \<longrightarrow>
      openHandles (run ss (init gen)) k' key' = []) \<and>
   (callbacks (run ss (init gen)) (path1 @ ''/'' @ documentId1) = None \<longrightarrow>
      registered (snd (addCallback path1 documentId1 cb1 callbackId1 overwrite1 (run ss (init gen))))
          Doc (path1 @ ''/'' @ documentId1) =
        [(fst (addCallback path1 documentId1 cb1 callbackId1 overwrite1 (run ss (init gen))), cb1)] \<and>
      openHandles (snd (addCallback path1 documentId1 cb1 callbackId1 overwrite1 (run ss (init gen))))
          Doc (path1 @ ''/'' @ documentId1) =
        [nextHandle (run ss (init gen))]) \<and>
   (map fst (registered (run ss (init gen)) Doc (path2 @ ''/'' @ documentId2)) = [cbId2] \<longrightarrow>
      callbacks (removeCallback path2 documentId2 cbId2 (run ss (init gen)))
          (path2 @ ''/'' @ documentId2) = None \<and>
      openHandles (removeCallback path2 documentId2 cbId2 (run ss (init gen)))
          Doc (path2 @ ''/'' @ documentId2) = []) \<and>
   (collectionCallbacks (run ss (init gen)) path3 = None \<longrightarrow>
      registered (snd (addCollectionCallback path3 cb3 callbackId3 overwrite3 (run ss (init gen))))
          Col path3 =
        [(fst (addCollectionCallback path3 cb3 callbackId3 overwrite3 (run ss (init gen))), cb3)] \<and>
      openHandles (snd (addCollectionCallback path3 cb3 callbackId3 overwrite3 (run ss (init gen))))
          Col path3 =
        [nextHandle (run ss (init gen))]) \<and>
   (map fst (registered (run ss (init gen)) Col path4) = [cbId4] \<longrightarrow>
      collectionCallbacks (removeCollectionCallback path4 cbId4 (run ss (init gen))) path4 = None \<and>
      openHandles (removeCollectionCallback path4 cbId4 (run ss (init gen))) Col path4 = [])"
proof -
  let ?S = "run ss (init gen)"
  have inv: "invariant ?S" by (rule invariant_reachable)
  have inv1: "invariant (afterId c ?S)" for c
    using inv by (rule invariant_afterId)
  have 1: "registry k ?S key = Some a \<longrightarrow>
      1 \<le> mapSize (func (heap ?S a)) \<and>
      map Some (openHandles ?S k key) = [unsubscribe (heap ?S a)]"
    using openHandles_registry [OF inv, of k key] entry_not_empty [OF inv, of k key a] by auto
  have 2: "registry k' ?S key' = None \<longrightarrow> openHandles ?S k' key' = []"
    using openHandles_registry [OF inv, of k' key'] by auto
  have 3: "callbacks ?S (path1 @ ''/'' @ documentId1) = None \<longrightarrow>
      registered (snd (addCallback path1 documentId1 cb1 callbackId1 overwrite1 ?S))
          Doc (path1 @ ''/'' @ documentId1) =
        [(fst (addCallback path1 documentId1 cb1 callbackId1 overwrite1 ?S), cb1)] \<and>
      openHandles (snd (addCallback path1 documentId1 cb1 callbackId1 overwrite1 ?S))
          Doc (path1 @ ''/'' @ documentId1) = [nextHandle ?S]"
    using first_registration [OF inv1 [of callbackId1], where k = Doc
        and key = "path1 @ ''/'' @ documentId1"]
    by (simp add: addCallback_register)
  have 4: "map fst (registered ?S Doc (path2 @ ''/'' @ documentId2)) = [cbId2] \<longrightarrow>
      callbacks (removeCallback path2 documentId2 cbId2 ?S) (path2 @ ''/'' @ documentId2) = None \<and>
      openHandles (removeCallback path2 documentId2 cbId2 ?S) Doc (path2 @ ''/'' @ documentId2) = []"
    using last_removal [OF inv, where k = Doc and key = "path2 @ ''/'' @ documentId2"
        and cbId = cbId2]
    by (simp add: removeCallback_unregister)
  have 5: "collectionCallbacks ?S path3 = None \<longrightarrow>
      registered (snd (addCollectionCallback path3 cb3 callbackId3 overwrite3 ?S)) Col path3 =
        [(fst (addCollectionCallback path3 cb3 callbackId3 overwrite3 ?S), cb3)] \<and>
      openHandles (snd (addCollectionCallback path3 cb3 callbackId3 overwrite3 ?S)) Col path3 =
        [nextHandle ?S]"
    using first_registration [OF inv1 [of callbackId3], where k = Col and key = path3]
    by (simp add: addCollectionCallback_register)
  have 6: "map fst (registered ?S Col path4) = [cbId4] \<longrightarrow>
      collectionCallbacks (removeCollectionCallback path4 cbId4 ?S) path4 = None \<and>
      openHandles (removeCollectionCallback path4 cbId4 ?S) Col path4 = []"
    using last_removal [OF inv, where k = Col and key = path4 and cbId = cbId4]
    by (simp add: removeCollectionCallback_unregister)
  from 1 2 3 4 5 6 show ?thesis by (intro conjI)
qed


theorem entries_never_empty_witness:
  "registry Doc sample ''users/u1'' = Some 0 \<and>
   1 \<le> mapSize (func (heap sample 0)) \<and>
   map Some (openHandles sample Doc ''users/u1'') = [unsubscribe (heap sample 0)] \<and>
   registry Col sample ''users'' = None \<and>
   openHandles sample Col ''users'' = [] \<and>
   callbacks sample (''users'' @ ''/'' @ ''u2'') = None \<and>
   registered (snd (addCallback ''users'' ''u2'' (Callback 2 [] False) None False sample))
       Doc (''users'' @ ''/'' @ ''u2'') =
     [(fst (addCallback ''users'' ''u2'' (Callback 2 [] False) None False sample), Callback 2 [] False)] \<and>
   openHandles (snd (addCallback ''users'' ''u2'' (Callback 2 [] False) None False sample))
       Doc (''users'' @ ''/'' @ ''u2'') = [nextHandle sample] \<and>
   map fst (registered sample Doc (''users'' @ ''/'' @ ''u1'')) = [''a''] \<and>
   callbacks (removeCallback ''users'' ''u1'' ''a'' sample) (''users'' @ ''/'' @ ''u1'') = None \<and>
   openHandles (removeCallback ''users'' ''u1'' ''a'' sample) Doc (''users'' @ ''/'' @ ''u1'') = [] \<and>
   collectionCallbacks sample ''users'' = None \<and>
   registered (snd (addCollectionCallback ''users'' (Callback 3 [] False) None False sample))
       Col ''users'' =
     [(fst (addCollectionCallback ''users'' (Callback 3 [] False) None False sample), Callback 3 [] False)] \<and>
   openHandles (snd (addCollectionCallback ''users'' (Callback 3 [] False) None False sample))
       Col ''users'' = [nextHandle sample] \<and>
   map fst (registered sample Col ''rooms'') = [''b''] \<and>
   collectionCallbacks (removeCollectionCallback ''rooms'' ''b'' sample) ''rooms'' = None \<and>
   openHandles (removeCollectionCallback ''rooms'' ''b'' sample) Col ''rooms'' = []"
proof -
  have h1: "registry Doc sample ''users/u1'' = Some 0"
    by (simp add: sample_eval eval)
  have h2: "registry Col sample ''users'' = None"
    by (simp add: sample_eval eval)
  have h3: "callbacks sample (''users'' @ ''/'' @ ''u2'') = None"
    by (simp add: sample_eval eval)
  have h4: "map fst (registered sample Doc (''users'' @ ''/'' @ ''u1'')) = [''a'']"
    by (simp add: sample_eval eval)
  have h5: "collectionCallbacks sample ''users'' = None"
    by (simp add: sample_eval eval)
  have h6: "map fst (registered sample Col ''rooms'') = [''b'']"
    by (simp add: sample_eval eval)
  note inst = entries_never_empty [where ss = sampleRun and gen = sampleIds,
      folded sample_def, where k = Doc and key = "''users/u1''" and a = 0
      and k' = Col and key' = "''users''"
      and ?path1.0 = "''users''" and ?documentId1.0 = "''u2''" and ?cb1.0 = "Callback 2 [] False"
      and ?callbackId1.0 = None and ?overwrite1.0 = False
      and ?path2.0 = "''users''" and ?documentId2.0 = "''u1''" and ?cbId2.0 = "''a''"
      and ?path3.0 = "''users''" and ?cb3.0 = "Callback 3 [] False"
      and ?callbackId3.0 = None and ?overwrite3.0 = False
      and ?path4.0 = "''rooms''" and ?cbId4.0 = "''b''"]
  from inst h1 h2 h3 h4 h5 h6 show ?thesis by blast
qed

subsection \<open>Register, then unregister with the returned id\<close>

lemma filter_fst_removeAll:
  "distinct (map fst xs) \<Longrightarrow> (i, v) \<in> set xs \<Longrightarrow>
   filter (\<lambda>e. fst e \<noteq> i) xs = removeAll (i, v) xs"
proof (induction xs)
  case Nil
  then show ?case by simp
next
  case (Cons x xs)
  show ?case
  proof (cases "x = (i, v)")
    case True
    with Cons.prems(1) have "i \<notin> fst ` set xs" by simp
    then have "(i, v) \<notin> set xs" by force
    with \<open>i \<notin> fst ` set xs\<close>
    have "filter (\<lambda>e. fst e \<noteq> i) xs = xs" "removeAll (i, v) xs = xs"
      by (force intro: filter_True, simp)
    with True show ?thesis by simp
  next
    case False
    with Cons.prems(2) have mem: "(i, v) \<in> set xs" by simp
    then have "i \<in> fst ` set xs" by force
    with Cons.prems(1) have "fst x \<noteq> i" by auto
    with Cons mem False show ?thesis by simp
  qed
qed

lemma distinct_registered: "invariant st \<Longrightarrow> distinct (map fst (registered st k key))"
  by (cases "registry k st key") (simp_all add: registered_def invIdsD)

lemma register_then_unregister:
  assumes "invariant st" and "overwrite \<or> cbId \<notin> set (map fst (registered st k key))"
  shows "(cbId, cb) \<in> set (registered (register k key cbId cb overwrite st) k key)"
    and "registered (unregister k key cbId (register k key cbId cb overwrite st)) k' key' =
      (if k' = k \<and> key' = key
       then removeAll (cbId, cb) (registered (register k key cbId cb overwrite st) k key)
       else registered (register k key cbId cb overwrite st) k' key')"
proof -
  let ?st1 = "register k key cbId cb overwrite st"
  have inv1: "invariant ?st1" using assms(1) by (rule invariant_register)
  show mem: "(cbId, cb) \<in> set (registered ?st1 k key)"
    using assms(2) by (force simp: registered_register [OF assms(1)])
  from filter_fst_removeAll [OF distinct_registered [OF inv1] mem]
  show "registered (unregister k key cbId ?st1) k' key' =
      (if k' = k \<and> key' = key then removeAll (cbId, cb) (registered ?st1 k key)
       else registered ?st1 k' key')"
    by (simp add: registered_unregister [OF inv1])
qed

text \<open>
  C7, as amended (the returned id removes the registration of the call). Every add call
  returns the id it used: the id supplied, or else the string \<^verbatim>\<open>nanoid()\<close> produced. When
  overwrite is true or that id is not yet registered under the key, the call binds the
  id to its callback, and the remove call with the returned id that follows takes
  exactly this pair out of the key and leaves every other key as it is.
\<close>

theorem returned_id_removes_registration:
  "fst (addCallback path documentId cb callbackId overwrite (run ss (init gen))) =
     (case callbackId of Some i \<Rightarrow> i
      | None \<Rightarrow> nanoidSource (run ss (init gen)) (nanoidCalls (run ss (init gen)))) \<and>
   fst (addCollectionCallback path cb callbackId overwrite (run ss (init gen))) =
     (case callbackId of Some i \<Rightarrow> i
      | None \<Rightarrow> nanoidSource (run ss (init gen)) (nanoidCalls (run ss (init gen)))) \<and>
   (overwrite \<or>
    fst (addCallback path documentId cb callbackId overwrite (run ss (init gen)))
      \<notin> set (map fst (registered (run ss (init gen)) Doc (path @ ''/'' @ documentId))) \<longrightarrow>
      (fst (addCallback path documentId cb callbackId overwrite (run ss (init gen))), cb)
        \<in> set (registered (snd (addCallback path documentId cb callbackId overwrite (run ss (init gen))))
            Doc (path @ ''/'' @ documentId)) \<and>
      registered
        (removeCallback path documentId
          (fst (addCallback path documentId cb callbackId overwrite (run ss (init gen))))
          (snd (addCallback path documentId cb callbackId overwrite (run ss (init gen))))) k' key' =
        (if k' = Doc \<and> key' = path @ ''/'' @ documentId
         then removeAll
           (fst (addCallback path documentId cb callbackId overwrite (run ss (init gen))), cb)
           (registered (snd (addCallback path documentId cb callbackId overwrite (run ss (init gen))))
              Doc (path @ ''/'' @ documentId))
         else registered (snd (addCallback path documentId cb callbackId overwrite (run ss (init gen))))
           k' key')) \<and>
   (overwrite \<or>
    fst (addCollectionCallback path cb callbackId overwrite (run ss (init gen)))
      \<notin> set (map fst (registered (run ss (init gen)) Col path)) \<longrightarrow>
      (fst (addCollectionCallback path cb callbackId overwrite (run ss (init gen))), cb)
        \<in> set (registered (snd (addCollectionCallback path cb callbackId overwrite (run ss (init gen))))
            Col path) \<and>
      registered
        (removeCollectionCallback path
          (fst (addCollectionCallback path cb callbackId overwrite (run ss (init gen))))
          (snd (addCollectionCallback path cb callbackId overwrite (run ss (init gen))))) k' key' =
        (if k' = Col \<and> key' = path
         then removeAll
           (fst (addCollectionCallback path cb callbackId overwrite (run ss (init gen))), cb)
           (registered (snd (addCollectionCallback path cb callbackId overwrite (run ss (init gen))))
              Col path)
         else registered (snd (addCollectionCallback path cb callbackId overwrite (run ss (init gen))))
           k' key'))"
proof -
  let ?S = "run ss (init gen)"
  have inv1: "invariant (afterId callbackId ?S)"
    by (rule invariant_afterId) (rule invariant_reachable)
  have id: "chosenId callbackId ?S =
     (case callbackId of Some i \<Rightarrow> i | None \<Rightarrow> nanoidSource ?S (nanoidCalls ?S))"
    by (cases callbackId) simp_all
  note rt1 = register_then_unregister(1) [OF inv1, where cbId = "chosenId callbackId ?S"
      and cb = cb and overwrite = overwrite]
  note rt2 = register_then_unregister(2) [OF inv1, where cbId = "chosenId callbackId ?S"
      and cb = cb and overwrite = overwrite and k' = k' and key' = key']
  from id rt1 [where k = Doc and key = "path @ ''/'' @ documentId"] rt1 [where k = Col and key = path]
    rt2 [where k = Doc and key = "path @ ''/'' @ documentId"] rt2 [where k = Col and key = path]
  show ?thesis
    by (simp add: addCallback_register addCollectionCallback_register
          removeCallback_unregister removeCollectionCallback_unregister)
qed


theorem returned_id_removes_registration_witness:
  "(False \<or>
    fst (addCallback ''users'' ''u1'' (Callback 2 [] False) None False sample)
      \<notin> set (map fst (registered sample Doc (''users'' @ ''/'' @ ''u1'')))) \<and>
   (False \<or>
    fst (addCollectionCallback ''users'' (Callback 2 [] False) None False sample)
      \<notin> set (map fst (registered sample Col ''users''))) \<and>
   fst (addCallback ''users'' ''u1'' (Callback 2 [] False) None False sample) = ''g'' \<and>
   fst (addCollectionCallback ''users'' (Callback 2 [] False) None False sample) = ''g'' \<and>
   (fst (addCallback ''users'' ''u1'' (Callback 2 [] False) None False sample), Callback 2 [] False)
     \<in> set (registered (snd (addCallback ''users'' ''u1'' (Callback 2 [] False) None False sample))
         Doc (''users'' @ ''/'' @ ''u1'')) \<and>
   registered
     (removeCallback ''users'' ''u1''
       (fst (addCallback ''users'' ''u1'' (Callback 2 [] False) None False sample))
       (snd (addCallback ''users'' ''u1'' (Callback 2 [] False) None False sample)))
     Doc (''users'' @ ''/'' @ ''u1'') =
     removeAll (fst (addCallback ''users'' ''u1'' (Callback 2 [] False) None False sample), Callback 2 [] False)
       (registered (snd (addCallback ''users'' ''u1'' (Callback 2 [] False) None False sample))
          Doc (''users'' @ ''/'' @ ''u1'')) \<and>
   (fst (addCollectionCallback ''users'' (Callback 2 [] False) None False sample), Callback 2 [] False)
     \<in> set (registered (snd (addCollectionCallback ''users'' (Callback 2 [] False) None False sample))
         Col ''users'') \<and>
   registered
     (removeCollectionCallback ''users''
       (fst (addCollectionCallback ''users'' (Callback 2 [] False) None False sample))
       (snd (addCollectionCallback ''users'' (Callback 2 [] False) None False sample)))
     Doc (''users'' @ ''/'' @ ''u1'') =
     registered (snd (addCollectionCallback ''users'' (Callback 2 [] False) None False sample))
       Doc (''users'' @ ''/'' @ ''u1'')"
proof -
  have h1: "False \<or>
    fst (addCallback ''users'' ''u1'' (Callback 2 [] False) None False sample)
      \<notin> set (map fst (registered sample Doc (''users'' @ ''/'' @ ''u1'')))"
    by (simp add: sample_eval eval)
  have h2: "False \<or>
    fst (addCollectionCallback ''users'' (Callback 2 [] False) None False sample)
      \<notin> set (map fst (registered sample Col ''users''))"
    by (simp add: sample_eval eval)
  have g: "nanoidSource sample (nanoidCalls sample) = ''g''"
    by (simp add: sample_eval eval)
  note inst = returned_id_removes_registration [where ss = sampleRun and gen = sampleIds,
      folded sample_def, where path = "''users''" and documentId = "''u1''"
      and cb = "Callback 2 [] False" and callbackId = None and overwrite = False
      and k' = Doc and key' = "''users'' @ ''/'' @ ''u1''"]
  from inst have 1:
    "fst (addCallback ''users'' ''u1'' (Callback 2 [] False) None False sample) =
       (case None of Some i \<Rightarrow> i | None \<Rightarrow> nanoidSource sample (nanoidCalls sample))"
    "fst (addCollectionCallback ''users'' (Callback 2 [] False) None False sample) =
       (case None of Some i \<Rightarrow> i | None \<Rightarrow> nanoidSource sample (nanoidCalls sample))"
    by blast+
  with g have ids:
    "fst (addCallback ''users'' ''u1'' (Callback 2 [] False) None False sample) = ''g''"
    "fst (addCollectionCallback ''users'' (Callback 2 [] False) None False sample) = ''g''"
    by simp_all
  from inst h1 have d1:
    "(fst (addCallback ''users'' ''u1'' (Callback 2 [] False) None False sample), Callback 2 [] False)
     \<in> set (registered (snd (addCallback ''users'' ''u1'' (Callback 2 [] False) None False sample))
         Doc (''users'' @ ''/'' @ ''u1''))"
    by blast
  from inst h1 have
    "registered
     (removeCallback ''users'' ''u1''
       (fst (addCallback ''users'' ''u1'' (Callback 2 [] False) None False sample))
       (snd (addCallback ''users'' ''u1'' (Callback 2 [] False) None False sample)))
     Doc (''users'' @ ''/'' @ ''u1'') =
     (if Doc = Doc \<and> ''users'' @ ''/'' @ ''u1'' = ''users'' @ ''/'' @ ''u1''
      then removeAll
        (fst (addCallback ''users'' ''u1'' (Callback 2 [] False) None False sample), Callback 2 [] False)
        (registered (snd (addCallback ''users'' ''u1'' (Callback 2 [] False) None False sample))
          Doc (''users'' @ ''/'' @ ''u1''))
      else registered (snd (addCallback ''users'' ''u1'' (Callback 2 [] False) None False sample))
        Doc (''users'' @ ''/'' @ ''u1''))"
    by blast
  then have d2:
    "registered
     (removeCallback ''users'' ''u1''
       (fst (addCallback ''users'' ''u1'' (Callback 2 [] False) None False sample))
       (snd (addCallback ''users'' ''u1'' (Callback 2 [] False) None False sample)))
     Doc (''users'' @ ''/'' @ ''u1'') =
     removeAll (fst (addCallback ''users'' ''u1'' (Callback 2 [] False) None False sample), Callback 2 [] False)
       (registered (snd (addCallback ''users'' ''u1'' (Callback 2 [] False) None False sample))
          Doc (''users'' @ ''/'' @ ''u1''))"
    by (simp only: simp_thms if_True)
  from inst h2 have c1:
    "(fst (addCollectionCallback ''users'' (Callback 2 [] False) None False sample), Callback 2 [] False)
     \<in> set (registered (snd (addCollectionCallback ''users'' (Callback 2 [] False) None False sample))
         Col ''users'')"
    by blast
  from inst h2 have
    "registered
     (removeCollectionCallback ''users''
       (fst (addCollectionCallback ''users'' (Callback 2 [] False) None False sample))
       (snd (addCollectionCallback ''users'' (Callback 2 [] False) None False sample)))
     Doc (''users'' @ ''/'' @ ''u1'') =
     (if Doc = Col \<and> ''users'' @ ''/'' @ ''u1'' = ''users''
      then removeAll
        (fst (addCollectionCallback ''users'' (Callback 2 [] False) None False sample), Callback 2 [] False)
        (registered (snd (addCollectionCallback ''users'' (Callback 2 [] False) None False sample))
          Col ''users'')
      else registered (snd (addCollectionCallback ''users'' (Callback 2 [] False) None False sample))
        Doc (''users'' @ ''/'' @ ''u1''))"
    by blast
  then have c2:
    "registered
     (removeCollectionCallback ''users''
       (fst (addCollectionCallback ''users'' (Callback 2 [] False) None False sample))
       (snd (addCollectionCallback ''users'' (Callback 2 [] False) None False sample)))
     Doc (''users'' @ ''/'' @ ''u1'') =
     registered (snd (addCollectionCallback ''users'' (Callback 2 [] False) None False sample))
       Doc (''users'' @ ''/'' @ ''u1'')"
    by (simp only: kind.distinct simp_thms if_False)
  from h1 h2 ids d1 d2 c1 c2 show ?thesis by blast
qed

text \<open>
  C7 as stated fails when the id supplied is already registered and overwrite is false:
  the add call returns the id without registering anything, and the remove call with
  that id takes away the callback of the earlier call.
\<close>

theorem returned_id_counterexample:
  "fst (addCallback ''users'' ''u1'' (Callback 2 [] False) (Some ''a'') False sample) = ''a'' \<and>
   registered (snd (addCallback ''users'' ''u1'' (Callback 2 [] False) (Some ''a'') False sample))
     Doc ''users/u1'' = [(''a'', Callback 0 [] False)] \<and>
   (''a'', Callback 2 [] False)
     \<notin> set (registered (snd (addCallback ''users'' ''u1'' (Callback 2 [] False) (Some ''a'') False sample))
         Doc ''users/u1'') \<and>
   registered
     (removeCallback ''users'' ''u1''
       (fst (addCallback ''users'' ''u1'' (Callback 2 [] False) (Some ''a'') False sample))
       (snd (addCallback ''users'' ''u1'' (Callback 2 [] False) (Some ''a'') False sample)))
     Doc ''users/u1'' = []"
  by (simp add: sample_eval eval)

subsection \<open>What a call leaves alone, and the listener of a watch\<close>

lemma register_frame:
  assumes "invariant st" and reg: "registry k' st key' = Some a'" and "\<not> (k' = k \<and> key' = key)"
  shows "registry k' (register k key cbId cb overwrite st) key' = Some a'"
    and "func (heap (register k key cbId cb overwrite st) a') = func (heap st a')"
proof -
  from assms(1) have e: "invEntries st" and u: "invUnshared st"
    by (simp_all add: invariant_def)
  from invEntriesD(1) [OF e reg] have fresh: "a' \<noteq> nextAddr st" by simp
  have other: "a' \<noteq> a" if "registry k st key = Some a" for a
    using invUnsharedD [OF u reg, of k key] that assms(3) by auto
  show "registry k' (register k key cbId cb overwrite st) key' = Some a'"
    using reg assms(3) by (cases "registry k st key") (auto simp: register_new register_existing)
  show "func (heap (register k key cbId cb overwrite st) a') = func (heap st a')"
    using fresh other by (cases "registry k st key") (auto simp: register_new register_existing)
qed

lemma unregister_frame:
  assumes "invariant st" and reg: "registry k' st key' = Some a'" and "\<not> (k' = k \<and> key' = key)"
  shows "registry k' (unregister k key cbId st) key' = Some a'"
    and "func (heap (unregister k key cbId st) a') = func (heap st a')"
proof -
  from assms(1) have u: "invUnshared st"
    by (simp add: invariant_def)
  have other: "a' \<noteq> a" if "registry k st key = Some a" for a
    using invUnsharedD [OF u reg, of k key] that assms(3) by auto
  show "registry k' (unregister k key cbId st) key' = Some a'"
    using reg assms(3)
    by (cases "registry k st key") (auto simp: unregister_missing unregister_existing)
  show "func (heap (unregister k key cbId st) a') = func (heap st a')"
    using other
    by (cases "registry k st key") (auto simp: unregister_missing unregister_existing)
qed

lemma invocations_append [simp]: "invocations (tr @ tr') = invocations tr @ invocations tr'"
  by (simp add: invocations_def)

lemma invocations_register [simp]:
  "invocations (trace (register k key cbId cb overwrite st)) = invocations (trace st)"
  by (cases "registry k st key") (simp_all add: register_new register_existing invocations_def)

lemma invocations_unregister [simp]:
  "invocations (trace (unregister k key cbId st)) = invocations (trace st)"
  by (cases "registry k st key")
     (simp_all add: unregister_missing unregister_existing invocations_def)

lemma invocations_exec [simp]: "invocations (trace (exec act st)) = invocations (trace st)"
  by (cases act) (simp_all add: exec_generic del: exec.simps)

lemma invocations_execAll [simp]:
  "invocations (trace (execAll acts st)) = invocations (trace st)"
  by (induction acts arbitrary: st) simp_all

lemma invocations_invoke:
  "invocations (trace (invoke k key cbId cb snap st)) =
     invocations (trace st) @ [Invoked k key cbId cb snap]"
  by (simp add: invoke_def invocations_def [of "[_]"])

lemma find_watch:
  "distinct (map watchHandle ws) \<Longrightarrow> w \<in> set ws \<Longrightarrow>
   find (\<lambda>x. watchHandle x = watchHandle w) ws = Some w"
  by (induction ws) force+

lemma open_handle_owner:
  assumes "invariant st" and "h \<in> set (openHandles st k key)"
  shows "\<exists>a. registry k st key = Some a \<and> unsubscribe (heap st a) = Some h \<and>
    find (\<lambda>x. watchHandle x = h) (watches st) = Some (ownWatch k key a h)"
proof -
  from assms(1) have e: "invEntries st" and w: "invWatches st"
    by (simp_all add: invariant_def)
  from assms(2) openHandles_registry [OF assms(1), of k key]
  obtain a where a: "registry k st key = Some a" "unsubscribe (heap st a) = Some h"
    by (cases "registry k st key") (auto simp: map_eq_Cons_conv)
  from invEntriesD(3) [OF e a(1)] a(2) have mem: "ownWatch k key a h \<in> set (watches st)"
    by auto
  from w have "distinct (map watchHandle (watches st))"
    by (simp add: invWatches_def)
  from find_watch [OF this mem] a show ?thesis by simp
qed

lemma deliver_open:
  assumes "invariant st" and "h \<in> set (openHandles st k key)"
  shows "\<exists>a. registry k st key = Some a \<and> deliver h snap st = mapForEach k key a 0 snap st"
proof -
  from open_handle_owner [OF assms] obtain a
    where a: "registry k st key = Some a"
      "find (\<lambda>x. watchHandle x = h) (watches st) = Some (ownWatch k key a h)"
    by blast
  then have "deliver h snap st = mapForEach k key a 0 snap st"
    by (cases k) (simp_all add: deliver_def)
  with a(1) show ?thesis by blast
qed

lemma overwrite_in_place:
  assumes "invariant st" and "cbId \<in> set (map fst (registered st k key))"
  shows "registered (register k key cbId cb True st) k key =
    map (\<lambda>e. if fst e = cbId then (cbId, cb) else e) (registered st k key)"
  using assms(2) by (simp add: registered_register [OF assms(1)])

lemma openHandles_afterId [simp]: "openHandles (afterId c st) k key = openHandles st k key"
  by (simp add: openHandles_def)

subsection \<open>The trace agrees with the registries\<close>

lemma wellInvoked_append:
  "wellInvoked b (tr @ tr') \<longleftrightarrow> wellInvoked b tr \<and> wellInvoked (foldl record_event b tr) tr'"
  by (induction tr arbitrary: b) auto

lemma map_of_filter_neq:
  "map_of (filter (\<lambda>e. fst e \<noteq> k) xs) = (map_of xs)(k := None)"
  by (induction xs) (auto simp: fun_eq_iff)

lemma map_of_replace_at:
  "map_of (map (\<lambda>e. if fst e = k then (k, v) else e) xs) x =
     (if x = k then (if k \<in> fst ` set xs then Some v else None) else map_of xs x)"
  by (induction xs) force+

lemma map_of_replace:
  "k \<in> set (map fst xs) \<Longrightarrow>
   map_of (map (\<lambda>e. if fst e = k then (k, v) else e) xs) = (map_of xs)(k \<mapsto> v)"
  by (rule ext) (simp add: map_of_replace_at)

lemma map_of_snoc:
  "k \<notin> set (map fst xs) \<Longrightarrow> map_of (xs @ [(k, v)]) = (map_of xs)(k \<mapsto> v)"
  by (induction xs) (auto simp: fun_eq_iff)

lemma trace_register:
  "trace (register k key cbId cb overwrite st) =
     (if overwrite \<or> cbId \<notin> set (map fst (registered st k key))
      then trace st @ [Registered k key cbId cb] else trace st)"
  by (cases "registry k st key")
     (simp_all add: register_new register_existing registered_def mapHas_def)

lemma trace_unregister:
  "trace (unregister k key cbId st) =
     (if cbId \<in> set (map fst (registered st k key))
      then trace st @ [Unregistered k key cbId] else trace st)"
  by (cases "registry k st key")
     (simp_all add: unregister_missing unregister_existing registered_def mapHas_def)

lemma bindings_register:
  assumes "invariant st"
  shows "stateBindings (register k key cbId cb overwrite st) =
     (if overwrite \<or> cbId \<notin> set (map fst (registered st k key))
      then (stateBindings st)((k, key, cbId) \<mapsto> cb) else stateBindings st)"
proof (rule ext)
  fix x :: "kind \<times> string \<times> string"
  obtain k' key' i where x: "x = (k', key', i)" by (cases x)
  show "stateBindings (register k key cbId cb overwrite st) x =
     (if overwrite \<or> cbId \<notin> set (map fst (registered st k key))
      then (stateBindings st)((k, key, cbId) \<mapsto> cb) else stateBindings st) x"
    unfolding x stateBindings_def
    by (simp add: registered_register [OF assms] map_of_replace map_of_snoc del: map_of_append)
qed

lemma bindings_unregister:
  assumes "invariant st"
  shows "stateBindings (unregister k key cbId st) = (stateBindings st)((k, key, cbId) := None)"
proof (rule ext)
  fix x :: "kind \<times> string \<times> string"
  obtain k' key' i where x: "x = (k', key', i)" by (cases x)
  show "stateBindings (unregister k key cbId st) x =
     ((stateBindings st)((k, key, cbId) := None)) x"
    unfolding x stateBindings_def
    by (simp add: registered_unregister [OF assms] map_of_filter_neq)
qed

lemma bindings_absent:
  assumes "cbId \<notin> set (map fst (registered st k key))"
  shows "(stateBindings st)((k, key, cbId) := None) = stateBindings st"
proof -
  from assms have "map_of (registered st k key) cbId = None"
    by (simp add: map_of_eq_None_iff)
  then show ?thesis
    by (auto simp: stateBindings_def fun_eq_iff)
qed

lemma invTrace_register:
  assumes "invariant st" and "invTrace st"
  shows "invTrace (register k key cbId cb overwrite st)"
  using assms(2)
  by (simp add: invTrace_def trace_register bindings_register [OF assms(1)] wellInvoked_append)

lemma invTrace_unregister:
  assumes "invariant st" and "invTrace st"
  shows "invTrace (unregister k key cbId st)"
  using assms(2)
  by (auto simp: invTrace_def trace_unregister bindings_unregister [OF assms(1)]
        wellInvoked_append bindings_absent)

lemma stateBindings_afterId [simp]: "stateBindings (afterId c st) = stateBindings st"
  by (simp add: stateBindings_def)

lemma invTrace_afterId: "invTrace st \<Longrightarrow> invTrace (afterId c st)"
  by (simp add: invTrace_def)

lemma invTrace_exec: "invariant st \<Longrightarrow> invTrace st \<Longrightarrow> invTrace (exec act st)"
  by (cases act)
     (simp_all add: exec_generic invTrace_register invTrace_unregister invTrace_afterId
        invariant_afterId del: exec.simps)

lemma invTrace_execAll: "invariant st \<Longrightarrow> invTrace st \<Longrightarrow> invTrace (execAll acts st)"
  by (induction acts arbitrary: st) (simp_all add: invTrace_exec invariant_exec)

lemma registered_trace [simp]: "registered (st\<lparr> trace := tr \<rparr>) k key = registered st k key"
  by (simp add: registered_def cong: option.case_cong)

lemma stateBindings_trace [simp]: "stateBindings (st\<lparr> trace := tr \<rparr>) = stateBindings st"
  by (simp add: stateBindings_def)

lemma invTrace_invoke:
  assumes "invariant st" and "invTrace st" and "map_of (registered st k key) cbId = Some cb"
  shows "invTrace (invoke k key cbId cb snap st)"
proof -
  let ?st = "st\<lparr> trace := trace st @ [Invoked k key cbId cb snap] \<rparr>"
  from assms(3) have "stateBindings st (k, key, cbId) = Some cb"
    by (simp add: stateBindings_def)
  with assms(2) have "invTrace ?st"
    by (simp add: invTrace_def wellInvoked_append)
  moreover have "invariant ?st" using assms(1) by (simp add: invariant_trace)
  ultimately show ?thesis
    by (simp add: invoke_def invTrace_execAll)
qed

subsection \<open>The object a listener walks\<close>

lemma nextAddr_register: "nextAddr st \<le> nextAddr (register k key cbId cb overwrite st)"
  by (cases "registry k st key") (simp_all add: register_new register_existing)

lemma nextAddr_unregister [simp]: "nextAddr (unregister k key cbId st) = nextAddr st"
  by (cases "registry k st key") (simp_all add: unregister_missing unregister_existing)

lemma register_unregistered:
  assumes "a < nextAddr st" and "\<And>k key. registry k st key \<noteq> Some a"
  shows "func (heap (register k key cbId cb overwrite st) a) = func (heap st a)"
  using assms by (cases "registry k st key") (auto simp: register_new register_existing)

lemma unregister_unregistered:
  assumes "\<And>k key. registry k st key \<noteq> Some a"
  shows "func (heap (unregister k key cbId st) a) = func (heap st a)"
  using assms by (cases "registry k st key") (auto simp: unregister_missing unregister_existing)

lemma walked_register:
  assumes "invariant st" and "walked k' key' a st"
  shows "walked k' key' a (register k key cbId cb overwrite st)"
proof -
  from assms(1) have e: "invEntries st" by (simp add: invariant_def)
  from assms(2) have lt: "a < nextAddr st" by (simp add: walked_def)
  with nextAddr_register [of st k key cbId cb overwrite]
  have lt': "a < nextAddr (register k key cbId cb overwrite st)" by simp
  show ?thesis
  proof (cases "registry k' st key' = Some a")
    case True
    have "registry k' (register k key cbId cb overwrite st) key' = Some a"
    proof (cases "k' = k \<and> key' = key")
      case same: True
      with True show ?thesis by (simp add: register_existing)
    next
      case False
      with register_frame(1) [OF assms(1) True] show ?thesis by blast
    qed
    with lt' show ?thesis by (simp add: walked_def)
  next
    case False
    with assms(2) have empty: "mapEntries (func (heap st a)) = []"
      by (simp add: walked_def)
    have "registry k2 st key2 \<noteq> Some a" for k2 key2
      using invEntriesD(2) [OF e, of k2 key2 a] empty by auto
    from register_unregistered [OF lt this] empty lt' show ?thesis
      by (simp add: walked_def)
  qed
qed

lemma walked_unregister:
  assumes "invariant st" and "walked k' key' a st"
  shows "walked k' key' a (unregister k key cbId st)"
proof -
  from assms(1) have e: "invEntries st" by (simp add: invariant_def)
  from assms(2) have lt: "a < nextAddr st" by (simp add: walked_def)
  show ?thesis
  proof (cases "registry k' st key' = Some a")
    case True
    show ?thesis
    proof (cases "k' = k \<and> key' = key")
      case same: True
      with True lt show ?thesis
        by (auto simp: walked_def unregister_existing)
    next
      case False
      with unregister_frame(1) [OF assms(1) True] lt show ?thesis
        by (simp add: walked_def)
    qed
  next
    case False
    with assms(2) have empty: "mapEntries (func (heap st a)) = []"
      by (simp add: walked_def)
    have "registry k2 st key2 \<noteq> Some a" for k2 key2
      using invEntriesD(2) [OF e, of k2 key2 a] empty by auto
    from unregister_unregistered [OF this] empty lt show ?thesis
      by (simp add: walked_def)
  qed
qed

lemma walked_afterId [simp]: "walked k key a (afterId c st) = walked k key a st"
  by (simp add: walked_def)

lemma walked_exec: "invariant st \<Longrightarrow> walked k key a st \<Longrightarrow> walked k key a (exec act st)"
  by (cases act)
     (simp_all add: exec_generic walked_register walked_unregister invariant_afterId
        del: exec.simps)

lemma walked_execAll:
  "invariant st \<Longrightarrow> walked k key a st \<Longrightarrow> walked k key a (execAll acts st)"
  by (induction acts arbitrary: st) (simp_all add: walked_exec invariant_exec)

lemma walked_invoke:
  assumes "invariant st" and "walked k key a st"
  shows "walked k key a (invoke k' key' cbId cb snap st)"
proof -
  let ?st = "st\<lparr> trace := trace st @ [Invoked k' key' cbId cb snap] \<rparr>"
  have "invariant ?st" using assms(1) by (simp add: invariant_trace)
  moreover have "walked k key a ?st" using assms(2) by (simp add: walked_def)
  ultimately show ?thesis by (simp add: invoke_def walked_execAll)
qed

lemma walked_binding:
  assumes "invariant st" and "walked k key a st"
    and "i < length (func (heap st a))" and "func (heap st a) ! i = Some e"
  shows "map_of (registered st k key) (fst e) = Some (snd e)"
proof -
  from mapEntries_nth [OF assms(3,4)] have mem: "e \<in> set (mapEntries (func (heap st a)))" .
  with assms(2) have reg: "registry k st key = Some a"
    by (auto simp: walked_def)
  from invIdsD [OF assms(1), of a] mem
  have "map_of (mapEntries (func (heap st a))) (fst e) = Some (snd e)"
    by (intro map_of_is_SomeI) simp_all
  with reg show ?thesis by (simp add: registered_def)
qed

lemma invTrace_mapForEach:
  "invariant st \<Longrightarrow> invTrace st \<Longrightarrow> walked k key a st \<Longrightarrow>
   invTrace (mapForEach k key a i snap st)"
proof (induction k key a i snap st rule: mapForEach.induct)
  case (1 k key a i snap st)
  show ?case
  proof (cases "i < length (func (heap st a))")
    case False
    with "1.prems" show ?thesis by (simp add: mapForEach.simps [of k key a i])
  next
    case True
    show ?thesis
    proof (cases "func (heap st a) ! i")
      case None
      with True "1.IH"(1) "1.prems" show ?thesis
        by (simp add: mapForEach.simps [of k key a i])
    next
      case (Some e)
      let ?st1 = "invoke k key (fst e) (snd e) snap st"
      have "invTrace ?st1"
        using "1.prems"(1,2) walked_binding [OF "1.prems"(1,3) True Some]
        by (rule invTrace_invoke)
      with True Some "1.IH"(2) [OF True Some _ invariant_invoke [OF "1.prems"(1)]]
        walked_invoke [OF "1.prems"(1,3)]
      show ?thesis
        by (simp add: mapForEach.simps [of k key a i])
    qed
  qed
qed

lemma watch_owner:
  assumes "invariant st" and "w \<in> set (watches st)"
  shows "\<exists>a. registry (watchKind w) st (watchPath w) = Some a \<and>
    watchListener w = listenerFor (watchKind w) (watchPath w) a"
proof -
  from assms(1) have e: "invEntries st" and ws: "invWatches st"
    by (simp_all add: invariant_def)
  from invWatchesD(2) [OF ws assms(2)] obtain a
    where a: "registry (watchKind w) st (watchPath w) = Some a"
      "unsubscribe (heap st a) = Some (watchHandle w)"
    by blast
  from invEntriesD(3) [OF e a(1)] a(2)
  have mem: "ownWatch (watchKind w) (watchPath w) a (watchHandle w) \<in> set (watches st)"
    by auto
  from ws have "distinct (map watchHandle (watches st))"
    by (simp add: invWatches_def)
  from watch_unique [OF this assms(2) mem]
  have "w = ownWatch (watchKind w) (watchPath w) a (watchHandle w)" by simp
  then have "watchListener w = listenerFor (watchKind w) (watchPath w) a"
    by (metis ownWatch_fields(4))
  with a(1) show ?thesis by blast
qed

lemma invTrace_deliver:
  assumes "invariant st" and "invTrace st"
  shows "invTrace (deliver h snap st)"
proof (cases "find (\<lambda>w. watchHandle w = h) (watches st)")
  case None
  with assms(2) show ?thesis by (simp add: deliver_def)
next
  case (Some w)
  then have mem: "w \<in> set (watches st)"
    by (auto simp: find_Some_iff)
  from assms(1) have e: "invEntries st" by (simp add: invariant_def)
  from watch_owner [OF assms(1) mem] obtain a
    where a: "registry (watchKind w) st (watchPath w) = Some a"
      "watchListener w = listenerFor (watchKind w) (watchPath w) a"
    by blast
  show ?thesis
  proof (cases "watchKind w")
    case Doc
    with a have l: "watchListener w = DocListener (watchPath w)"
      and r: "callbacks st (watchPath w) = Some a"
      by simp_all
    from invEntriesD(1) [OF e a(1)] a(1) Doc
    have "walked Doc (watchPath w) a st" by (simp add: walked_def)
    with Some l r assms show ?thesis
      by (simp add: deliver_def invTrace_mapForEach)
  next
    case Col
    with a have l: "watchListener w = ColListener a" by simp
    from invEntriesD(1) [OF e a(1)] a(1) Col
    have "walked Col (watchPath w) a st" by (simp add: walked_def)
    with Some l assms show ?thesis
      by (simp add: deliver_def invTrace_mapForEach)
  qed
qed

lemma registered_init [simp]: "registered (init gen) k key = []"
  by (simp add: registered_def)

lemma invTrace_init: "invTrace (init gen)"
  by (simp add: invTrace_def stateBindings_def fun_eq_iff) (simp add: init_def)

lemma invTrace_step: "invariant st \<Longrightarrow> invTrace st \<Longrightarrow> invTrace (step s st)"
  by (cases s) (simp_all add: invTrace_exec invTrace_deliver del: exec.simps)

lemma invTrace_run: "invariant st \<Longrightarrow> invTrace st \<Longrightarrow> invTrace (run ss st)"
  by (induction ss arbitrary: st) (simp_all add: invTrace_step invariant_step)

lemma wellInvoked_reachable: "wellInvoked Map.empty (trace (run ss (init gen)))"
  using invTrace_run [OF invariant_init invTrace_init, of ss gen]
  by (simp add: invTrace_def)

lemma bound_since_registered:
  "foldl record_event b tr (k, key, cbId) = Some cb \<Longrightarrow> b (k, key, cbId) = None \<Longrightarrow>
   \<exists>t1 t2. tr = t1 @ Registered k key cbId cb # t2 \<and>
     Unregistered k key cbId \<notin> set t2 \<and> (\<forall>cb'. Registered k key cbId cb' \<notin> set t2)"
proof (induction tr rule: rev_induct)
  case Nil
  then show ?case by simp
next
  case (snoc e tr)
  show ?case
  proof (cases "e = Unregistered k key cbId \<or> (\<exists>cb'. e = Registered k key cbId cb')")
    case True
    with snoc.prems(1) have "e = Registered k key cbId cb" by auto
    then have "tr @ [e] = tr @ Registered k key cbId cb # [] \<and>
        Unregistered k key cbId \<notin> set [] \<and> (\<forall>cb'. Registered k key cbId cb' \<notin> set [])"
      by simp
    then show ?thesis by blast
  next
    case False
    then have "record_event (foldl record_event b tr) e (k, key, cbId) =
        foldl record_event b tr (k, key, cbId)"
      by (cases e) auto
    with snoc.prems(1) have "foldl record_event b tr (k, key, cbId) = Some cb" by simp
    from snoc.IH [OF this snoc.prems(2)] obtain t1 t2
      where t: "tr = t1 @ Registered k key cbId cb # t2" "Unregistered k key cbId \<notin> set t2"
        "\<forall>cb'. Registered k key cbId cb' \<notin> set t2"
      by blast
    from t False have "tr @ [e] = t1 @ Registered k key cbId cb # (t2 @ [e]) \<and>
        Unregistered k key cbId \<notin> set (t2 @ [e]) \<and>
        (\<forall>cb'. Registered k key cbId cb' \<notin> set (t2 @ [e]))"
      by auto
    then show ?thesis by blast
  qed
qed

lemma wellInvoked_since:
  assumes "wellInvoked b (pre @ Unregistered k key cbId # mid @ Invoked k key cbId cb snap # post)"
  shows "\<exists>mid1 mid2. mid = mid1 @ Registered k key cbId cb # mid2 \<and>
     Unregistered k key cbId \<notin> set mid2 \<and> (\<forall>cb'. Registered k key cbId cb' \<notin> set mid2)"
proof -
  let ?b = "record_event (foldl record_event b pre) (Unregistered k key cbId)"
  have none: "?b (k, key, cbId) = None" by simp
  from assms have "wellInvoked (foldl record_event ?b mid) (Invoked k key cbId cb snap # post)"
    by (simp add: wellInvoked_append)
  then have "foldl record_event ?b mid (k, key, cbId) = Some cb" by simp
  from bound_since_registered [OF this none] show ?thesis .
qed

lemma wellInvoked_bound:
  assumes "wellInvoked Map.empty (pre @ Invoked k key cbId cb snap # post)"
  shows "\<exists>p1 p2. pre = p1 @ Registered k key cbId cb # p2 \<and>
     Unregistered k key cbId \<notin> set p2 \<and> (\<forall>cb'. Registered k key cbId cb' \<notin> set p2)"
proof -
  from assms have "foldl record_event Map.empty pre (k, key, cbId) = Some cb"
    by (simp add: wellInvoked_append)
  from bound_since_registered [OF this] show ?thesis by simp
qed

text \<open>
  C8 (no call after removal). In the trace of every run, a call made under an id of a key
  after that id was unregistered is a call of a callback that was registered under the id
  after the removal, by a registration that has not been removed or replaced since; so the
  callback that was removed is called neither later in the same dispatch nor by a later
  snapshot, unless it is registered again. More generally every call in the trace is a
  call of the callback that the last registration under its id bound, and that
  registration has not been removed since.
\<close>

theorem no_call_after_removal:
  "(trace (run ss (init gen)) =
      pre @ Unregistered k key cbId # mid @ Invoked k key cbId cb snap # post \<longrightarrow>
    Registered k key cbId cb \<in> set mid \<and>
    (\<exists>mid1 mid2. mid = mid1 @ Registered k key cbId cb # mid2 \<and>
       Unregistered k key cbId \<notin> set mid2 \<and> (\<forall>cb'. Registered k key cbId cb' \<notin> set mid2))) \<and>
   (trace (run ss (init gen)) = pre' @ Invoked k' key' cbId' cb' snap' # post' \<longrightarrow>
    (\<exists>p1 p2. pre' = p1 @ Registered k' key' cbId' cb' # p2 \<and>
       Unregistered k' key' cbId' \<notin> set p2 \<and> (\<forall>c. Registered k' key' cbId' c \<notin> set p2)))"
proof (intro conjI impI)
  assume tr: "trace (run ss (init gen)) =
      pre @ Unregistered k key cbId # mid @ Invoked k key cbId cb snap # post"
  from wellInvoked_reachable [of ss gen] tr
  have "wellInvoked Map.empty (pre @ Unregistered k key cbId # mid @ Invoked k key cbId cb snap # post)"
    by simp
  from wellInvoked_since [OF this]
  show split: "\<exists>mid1 mid2. mid = mid1 @ Registered k key cbId cb # mid2 \<and>
       Unregistered k key cbId \<notin> set mid2 \<and> (\<forall>cb'. Registered k key cbId cb' \<notin> set mid2)" .
  then show "Registered k key cbId cb \<in> set mid" by auto
next
  assume tr: "trace (run ss (init gen)) = pre' @ Invoked k' key' cbId' cb' snap' # post'"
  from wellInvoked_reachable [of ss gen] tr
  have "wellInvoked Map.empty (pre' @ Invoked k' key' cbId' cb' snap' # post')"
    by simp
  from wellInvoked_bound [OF this]
  show "\<exists>p1 p2. pre' = p1 @ Registered k' key' cbId' cb' # p2 \<and>
       Unregistered k' key' cbId' \<notin> set p2 \<and> (\<forall>c. Registered k' key' cbId' c \<notin> set p2)" .
qed

theorem no_call_after_removal_witness:
  "trace (run (sampleRun @
       [Call (RemoveCallback ''users'' ''u1'' ''a''),
        Call (AddCallback ''users'' ''u1'' (Callback 5 [] False) (Some ''a'') False),
        Deliver 2 7]) (init sampleIds)) =
     [Registered Doc ''users/u1'' ''a'' (Callback 0 [] False),
      Registered Col ''rooms'' ''b'' (Callback 1 [] False)] @
     Unregistered Doc ''users/u1'' ''a'' #
     [Registered Doc ''users/u1'' ''a'' (Callback 5 [] False)] @
     Invoked Doc ''users/u1'' ''a'' (Callback 5 [] False) 7 # [] \<and>
   Registered Doc ''users/u1'' ''a'' (Callback 5 [] False)
     \<in> set [Registered Doc ''users/u1'' ''a'' (Callback 5 [] False)] \<and>
   (\<exists>mid1 mid2. [Registered Doc ''users/u1'' ''a'' (Callback 5 [] False)] =
        mid1 @ Registered Doc ''users/u1'' ''a'' (Callback 5 [] False) # mid2 \<and>
      Unregistered Doc ''users/u1'' ''a'' \<notin> set mid2 \<and>
      (\<forall>cb'. Registered Doc ''users/u1'' ''a'' cb' \<notin> set mid2)) \<and>
   trace (run (sampleRun @
       [Call (RemoveCollectionCallback ''rooms'' ''b''),
        Call (AddCollectionCallback ''rooms'' (Callback 6 [] False) (Some ''b'') False),
        Deliver 2 7]) (init sampleIds)) =
     [Registered Doc ''users/u1'' ''a'' (Callback 0 [] False),
      Registered Col ''rooms'' ''b'' (Callback 1 [] False)] @
     Unregistered Col ''rooms'' ''b'' #
     [Registered Col ''rooms'' ''b'' (Callback 6 [] False)] @
     Invoked Col ''rooms'' ''b'' (Callback 6 [] False) 7 # [] \<and>
   Registered Col ''rooms'' ''b'' (Callback 6 [] False)
     \<in> set [Registered Col ''rooms'' ''b'' (Callback 6 [] False)] \<and>
   trace (run (removerRun @ [Deliver 0 7, Deliver 0 8]) (init sampleIds)) =
     [Registered Doc ''users/u1'' ''a'' (Callback 0 [RemoveCallback ''users'' ''u1'' ''b''] False),
      Registered Doc ''users/u1'' ''b'' (Callback 1 [] False)] @
     Invoked Doc ''users/u1'' ''a'' (Callback 0 [RemoveCallback ''users'' ''u1'' ''b''] False) 7 #
     [Unregistered Doc ''users/u1'' ''b'',
      Invoked Doc ''users/u1'' ''a'' (Callback 0 [RemoveCallback ''users'' ''u1'' ''b''] False) 8] \<and>
   (\<exists>p1 p2. [Registered Doc ''users/u1'' ''a'' (Callback 0 [RemoveCallback ''users'' ''u1'' ''b''] False),
        Registered Doc ''users/u1'' ''b'' (Callback 1 [] False)] =
        p1 @ Registered Doc ''users/u1'' ''a'' (Callback 0 [RemoveCallback ''users'' ''u1'' ''b''] False) # p2 \<and>
      Unregistered Doc ''users/u1'' ''a'' \<notin> set p2 \<and>
      (\<forall>c. Registered Doc ''users/u1'' ''a'' c \<notin> set p2))"
proof -
  let ?R1 = "sampleRun @
       [Call (RemoveCallback ''users'' ''u1'' ''a''),
        Call (AddCallback ''users'' ''u1'' (Callback 5 [] False) (Some ''a'') False),
        Deliver 2 7]"
  let ?R2 = "sampleRun @
       [Call (RemoveCollectionCallback ''rooms'' ''b''),
        Call (AddCollectionCallback ''rooms'' (Callback 6 [] False) (Some ''b'') False),
        Deliver 2 7]"
  let ?R3 = "removerRun @ [Deliver 0 7, Deliver 0 8]"
  let ?A = "Callback 0 [RemoveCallback ''users'' ''u1'' ''b''] False"
  have tr1: "trace (run ?R1 (init sampleIds)) =
     [Registered Doc ''users/u1'' ''a'' (Callback 0 [] False),
      Registered Col ''rooms'' ''b'' (Callback 1 [] False)] @
     Unregistered Doc ''users/u1'' ''a'' #
     [Registered Doc ''users/u1'' ''a'' (Callback 5 [] False)] @
     Invoked Doc ''users/u1'' ''a'' (Callback 5 [] False) 7 # []"
    by (simp add: sample_eval eval)
  have tr2: "trace (run ?R2 (init sampleIds)) =
     [Registered Doc ''users/u1'' ''a'' (Callback 0 [] False),
      Registered Col ''rooms'' ''b'' (Callback 1 [] False)] @
     Unregistered Col ''rooms'' ''b'' #
     [Registered Col ''rooms'' ''b'' (Callback 6 [] False)] @
     Invoked Col ''rooms'' ''b'' (Callback 6 [] False) 7 # []"
    by (simp add: sample_eval eval)
  have tr3: "trace (run ?R3 (init sampleIds)) =
     [Registered Doc ''users/u1'' ''a'' ?A,
      Registered Doc ''users/u1'' ''b'' (Callback 1 [] False)] @
     Invoked Doc ''users/u1'' ''a'' ?A 7 #
     [Unregistered Doc ''users/u1'' ''b'', Invoked Doc ''users/u1'' ''a'' ?A 8]"
    by (simp add: removerRun_def sampleIds_def eval)
  note doc = no_call_after_removal [where ss = ?R1 and gen = sampleIds
      and pre = "[Registered Doc ''users/u1'' ''a'' (Callback 0 [] False),
        Registered Col ''rooms'' ''b'' (Callback 1 [] False)]"
      and k = Doc and key = "''users/u1''" and cbId = "''a''"
      and mid = "[Registered Doc ''users/u1'' ''a'' (Callback 5 [] False)]"
      and cb = "Callback 5 [] False" and snap = 7 and post = "[]"]
  note col = no_call_after_removal [where ss = ?R2 and gen = sampleIds
      and pre = "[Registered Doc ''users/u1'' ''a'' (Callback 0 [] False),
        Registered Col ''rooms'' ''b'' (Callback 1 [] False)]"
      and k = Col and key = "''rooms''" and cbId = "''b''"
      and mid = "[Registered Col ''rooms'' ''b'' (Callback 6 [] False)]"
      and cb = "Callback 6 [] False" and snap = 7 and post = "[]"]
  note gen = no_call_after_removal [where ss = ?R3 and gen = sampleIds
      and pre' = "[Registered Doc ''users/u1'' ''a'' ?A,
        Registered Doc ''users/u1'' ''b'' (Callback 1 [] False)]"
      and k' = Doc and key' = "''users/u1''" and cbId' = "''a''" and cb' = ?A and snap' = 7
      and post' = "[Unregistered Doc ''users/u1'' ''b'', Invoked Doc ''users/u1'' ''a'' ?A 8]"]
  note d = doc [THEN conjunct1, THEN mp, OF tr1]
  note c = col [THEN conjunct1, THEN mp, OF tr2]
  note g = gen [THEN conjunct2, THEN mp, OF tr3]
  show ?thesis
    by (intro conjI tr1 tr2 tr3 d [THEN conjunct1] d [THEN conjunct2] c [THEN conjunct1] g)
qed

subsection \<open>What a callback does to the map that is walked\<close>

lemma slotAt_Cons [simp]:
  "slotAt (x # m) 0 = Some x" "slotAt (x # m) (Suc j) = slotAt m j" "slotAt [] j = None"
  by (simp_all add: slotAt_def)

lemma slotEvolves_same: "slotEvolves k key evs (Some s) s"
  by (simp add: slotEvolves_def split: option.split)

lemma slotEvolves_mono:
  "slotEvolves k key evs old new \<Longrightarrow> set evs \<subseteq> set evs' \<Longrightarrow> slotEvolves k key evs' old new"
  by (auto simp: slotEvolves_def split: option.splits)

lemma slotEvolves_trans:
  "slotEvolves k key e1 old mid \<Longrightarrow> slotEvolves k key e2 (Some mid) new \<Longrightarrow>
   slotEvolves k key (e1 @ e2) old new"
  by (auto simp: slotEvolves_def split: option.splits)

lemma evolves_same: "evolves k key evs m m"
  by (simp add: evolves_def slotAt_def slotEvolves_same)

lemma evolvesD:
  "evolves k key evs m m' \<Longrightarrow> j < length m' \<Longrightarrow> slotEvolves k key evs (slotAt m j) (m' ! j)"
  "evolves k key evs m m' \<Longrightarrow> length m \<le> length m'"
  unfolding evolves_def by blast+

lemma evolves_trans:
  assumes "evolves k key e1 m m'" and "evolves k key e2 m' m''"
  shows "evolves k key (e1 @ e2) m m''"
proof -
  from assms have len: "length m \<le> length m'" "length m' \<le> length m''"
    by (simp_all add: evolves_def)
  have "slotEvolves k key (e1 @ e2) (slotAt m j) (m'' ! j)" if j: "j < length m''" for j
  proof (cases "j < length m'")
    case True
    with assms(1) have 1: "slotEvolves k key e1 (slotAt m j) (m' ! j)"
      by (simp add: evolves_def)
    from evolvesD(1) [OF assms(2) j] True have 2: "slotEvolves k key e2 (Some (m' ! j)) (m'' ! j)"
      by (simp add: slotAt_def)
    from 1 2 show ?thesis by (rule slotEvolves_trans)
  next
    case False
    with len have "slotAt m j = None" "slotAt m' j = None"
      by (simp_all add: slotAt_def)
    with evolvesD(1) [OF assms(2) j] have "slotEvolves k key e2 (slotAt m j) (m'' ! j)"
      by simp
    then show ?thesis by (rule slotEvolves_mono) simp
  qed
  with len show ?thesis by (simp add: evolves_def)
qed

lemma length_mapSet: "length m \<le> length (mapSet m x c)"
  by (induction m x c rule: mapSet.induct) simp_all

lemma slots_mapSet:
  "j < length (mapSet m x c) \<Longrightarrow>
   slotEvolves k key [Registered k key x c] (slotAt m j) (mapSet m x c ! j)"
proof (induction m x c arbitrary: j rule: mapSet.induct)
  case (1 x c)
  then show ?case by (simp add: slotEvolves_def)
next
  case (2 m x c)
  then show ?case by (cases j) (simp_all add: slotEvolves_def)
next
  case (3 x' c' m x c)
  show ?case
  proof (cases j)
    case 0
    then show ?thesis by (simp add: slotEvolves_def)
  next
    case (Suc n)
    show ?thesis
    proof (cases "x' = x")
      case True
      with Suc "3.prems" show ?thesis by (simp add: slotAt_def slotEvolves_same)
    next
      case False
      with Suc "3.prems" "3.IH" [of n] show ?thesis by simp
    qed
  qed
qed

lemma evolves_mapSet: "evolves k key [Registered k key x c] m (mapSet m x c)"
  by (simp add: evolves_def length_mapSet slots_mapSet)

lemma slots_mapDelete:
  "j < length m \<Longrightarrow>
   slotEvolves k key [Unregistered k key x] (slotAt m j) (mapDelete m x ! j)"
proof (induction m x arbitrary: j rule: mapDelete.induct)
  case (1 x)
  then show ?case by simp
next
  case (2 m x)
  then show ?case by (cases j) (simp_all add: slotEvolves_def)
next
  case (3 x' c' m x)
  show ?case
  proof (cases j)
    case 0
    then show ?thesis by (simp add: slotEvolves_def)
  next
    case (Suc n)
    show ?thesis
    proof (cases "x' = x")
      case True
      with Suc "3.prems" show ?thesis by (simp add: slotAt_def slotEvolves_same)
    next
      case False
      with Suc "3.prems" "3.IH" [of n] show ?thesis by simp
    qed
  qed
qed

lemma evolves_mapDelete: "evolves k key [Unregistered k key x] m (mapDelete m x)"
  by (simp add: evolves_def slots_mapDelete)

lemma newEvents_same [simp]: "newEvents st st = []"
  by (simp add: newEvents_def)

lemma newEvents_eq: "trace st' = trace st @ evs \<Longrightarrow> newEvents st st' = evs"
  by (simp add: newEvents_def)

lemma newEvents_afterId [simp]: "newEvents (afterId c st) st' = newEvents st st'"
  by (simp add: newEvents_def)

lemma newEvents_trace [simp]: "newEvents (st\<lparr> trace := tr \<rparr>) st' = drop (length tr) (trace st')"
  by (simp add: newEvents_def)

lemma walked_owner:
  assumes "invariant st" and "walked k key a st" and "registry k2 st key2 = Some a"
  shows "k2 = k \<and> key2 = key"
proof -
  from assms(1) have e: "invEntries st" and u: "invUnshared st"
    by (simp_all add: invariant_def)
  from invEntriesD(2) [OF e assms(3)] assms(2) have "registry k st key = Some a"
    by (simp add: walked_def)
  from invUnsharedD [OF u assms(3) this] show ?thesis .
qed

lemma effect_register:
  assumes "invariant st" and "walked k key a st"
  shows "trace (register k2 key2 x c ow st) = trace st @ newEvents st (register k2 key2 x c ow st)"
    and "evolves k key (newEvents st (register k2 key2 x c ow st))
      (func (heap st a)) (func (heap (register k2 key2 x c ow st) a))"
proof -
  show "trace (register k2 key2 x c ow st) = trace st @ newEvents st (register k2 key2 x c ow st)"
    by (simp add: newEvents_def trace_register)
  from assms(2) have lt: "a < nextAddr st" by (simp add: walked_def)
  show "evolves k key (newEvents st (register k2 key2 x c ow st))
      (func (heap st a)) (func (heap (register k2 key2 x c ow st) a))"
  proof (cases "registry k2 st key2")
    case None
    with lt show ?thesis by (simp add: register_new evolves_same)
  next
    case (Some a2)
    show ?thesis
    proof (cases "a2 = a")
      case False
      with Some show ?thesis by (simp add: register_existing evolves_same)
    next
      case True
      with walked_owner [OF assms] Some have same: "k2 = k" "key2 = key" by simp_all
      from Some True same show ?thesis
        by (simp add: register_existing evolves_same newEvents_def evolves_mapSet)
    qed
  qed
qed

lemma effect_unregister:
  assumes "invariant st" and "walked k key a st"
  shows "trace (unregister k2 key2 x st) = trace st @ newEvents st (unregister k2 key2 x st)"
    and "evolves k key (newEvents st (unregister k2 key2 x st))
      (func (heap st a)) (func (heap (unregister k2 key2 x st) a))"
proof -
  show "trace (unregister k2 key2 x st) = trace st @ newEvents st (unregister k2 key2 x st)"
    by (simp add: newEvents_def trace_unregister)
  show "evolves k key (newEvents st (unregister k2 key2 x st))
      (func (heap st a)) (func (heap (unregister k2 key2 x st) a))"
  proof (cases "registry k2 st key2")
    case None
    then show ?thesis by (simp add: unregister_missing evolves_same)
  next
    case (Some a2)
    show ?thesis
    proof (cases "a2 = a")
      case False
      with Some show ?thesis by (simp add: unregister_existing evolves_same)
    next
      case True
      with walked_owner [OF assms] Some have same: "k2 = k" "key2 = key" by simp_all
      from Some True same show ?thesis
        by (simp add: unregister_existing evolves_same newEvents_def evolves_mapDelete
              mapDelete_absent)
    qed
  qed
qed

lemma effect_exec:
  assumes "invariant st" and "walked k key a st"
  shows "trace (exec act st) = trace st @ newEvents st (exec act st)"
    and "evolves k key (newEvents st (exec act st)) (func (heap st a)) (func (heap (exec act st) a))"
proof -
  have inv1: "invariant (afterId c st)" for c
    using assms(1) by (rule invariant_afterId)
  have w1: "walked k key a (afterId c st)" for c
    using assms(2) by simp
  note r = effect_register [OF inv1 w1] and u = effect_unregister [OF assms]
  show "trace (exec act st) = trace st @ newEvents st (exec act st)"
    using r(1) u(1) by (cases act) (simp_all add: exec_generic del: exec.simps)
  show "evolves k key (newEvents st (exec act st)) (func (heap st a)) (func (heap (exec act st) a))"
    using r(2) u(2) by (cases act) (simp_all add: exec_generic del: exec.simps)
qed

lemma newEvents_trans:
  "trace st1 = trace st @ newEvents st st1 \<Longrightarrow> trace st2 = trace st1 @ newEvents st1 st2 \<Longrightarrow>
   newEvents st st2 = newEvents st st1 @ newEvents st1 st2 \<and>
   trace st2 = trace st @ newEvents st st2"
  by (metis append.assoc newEvents_eq)

lemma effect_execAll:
  assumes "invariant st" and "walked k key a st"
  shows "trace (execAll acts st) = trace st @ newEvents st (execAll acts st) \<and>
    evolves k key (newEvents st (execAll acts st))
      (func (heap st a)) (func (heap (execAll acts st) a))"
  using assms
proof (induction acts arbitrary: st)
  case Nil
  then show ?case by (simp add: evolves_same)
next
  case (Cons act acts)
  let ?st1 = "exec act st"
  note e = effect_exec [OF Cons.prems, of act]
  from Cons.IH [OF invariant_exec [OF Cons.prems(1)] walked_exec [OF Cons.prems]]
  have ih: "trace (execAll acts ?st1) = trace ?st1 @ newEvents ?st1 (execAll acts ?st1)"
    "evolves k key (newEvents ?st1 (execAll acts ?st1))
      (func (heap ?st1 a)) (func (heap (execAll acts ?st1) a))"
    by simp_all
  from newEvents_trans [OF e(1) ih(1)] evolves_trans [OF e(2) ih(2)]
  show ?case by simp
qed

lemma invocations_new:
  "trace st' = trace st @ newEvents st st' \<Longrightarrow>
   invocations (trace st') = invocations (trace st) @ invocations (newEvents st st')"
  by (metis invocations_append)

lemma effect_invoke:
  assumes "invariant st" and "walked k key a st"
  shows "\<exists>evs. newEvents st (invoke k key x c snap st) = Invoked k key x c snap # evs \<and>
    trace (invoke k key x c snap st) = trace st @ Invoked k key x c snap # evs \<and>
    invocations evs = [] \<and>
    evolves k key evs (func (heap st a)) (func (heap (invoke k key x c snap st) a))"
proof -
  let ?st0 = "st\<lparr> trace := trace st @ [Invoked k key x c snap] \<rparr>"
  let ?st1 = "execAll (body c) ?st0"
  have i0: "invariant ?st0" using assms(1) by (simp add: invariant_trace)
  have w0: "walked k key a ?st0" using assms(2) by (simp add: walked_def)
  from effect_execAll [OF i0 w0, of "body c"]
  have e: "trace ?st1 = trace ?st0 @ newEvents ?st0 ?st1"
    "evolves k key (newEvents ?st0 ?st1) (func (heap st a)) (func (heap ?st1 a))"
    by simp_all
  from e(1) have tr: "trace ?st1 = trace st @ Invoked k key x c snap # newEvents ?st0 ?st1"
    by simp
  from invocations_new [OF e(1)] have "invocations (newEvents ?st0 ?st1) = []"
    by simp
  with tr e(2) newEvents_eq [OF tr] show ?thesis
    by (simp add: invoke_def)
qed

lemma grows_mapForEach:
  "invariant st \<Longrightarrow> walked k key a st \<Longrightarrow>
   trace (mapForEach k key a i snap st) = trace st @ newEvents st (mapForEach k key a i snap st)"
proof (induction k key a i snap st rule: mapForEach.induct)
  case (1 k key a i snap st)
  show ?case
  proof (cases "i < length (func (heap st a))")
    case False
    then show ?thesis by (simp add: mapForEach.simps [of k key a i])
  next
    case True
    show ?thesis
    proof (cases "func (heap st a) ! i")
      case None
      with True "1.IH"(1) "1.prems" show ?thesis
        by (simp add: mapForEach.simps [of k key a i])
    next
      case (Some e)
      let ?st1 = "invoke k key (fst e) (snd e) snap st"
      from effect_invoke [OF "1.prems", of "fst e" "snd e" snap]
      have g1: "trace ?st1 = trace st @ newEvents st ?st1" by auto
      show ?thesis
      proof (cases "throws (snd e)")
        case True
        with \<open>i < length (func (heap st a))\<close> Some g1 show ?thesis
          by (simp add: mapForEach.simps [of k key a i])
      next
        case False
        from "1.IH"(2) [OF True Some False invariant_invoke [OF "1.prems"(1)]
            walked_invoke [OF "1.prems"]]
        have "trace (mapForEach k key a (Suc i) snap ?st1) =
            trace ?st1 @ newEvents ?st1 (mapForEach k key a (Suc i) snap ?st1)" .
        from newEvents_trans [OF g1 this] True Some False show ?thesis
          by (simp add: mapForEach.simps [of k key a i])
      qed
    qed
  qed
qed

lemma grows_deliver:
  assumes "invariant st"
  shows "trace (deliver h snap st) = trace st @ newEvents st (deliver h snap st)"
proof (cases "find (\<lambda>w. watchHandle w = h) (watches st)")
  case None
  then show ?thesis by (simp add: deliver_def)
next
  case (Some w)
  then have mem: "w \<in> set (watches st)"
    by (auto simp: find_Some_iff)
  from assms have e: "invEntries st" by (simp add: invariant_def)
  from watch_owner [OF assms mem] obtain a
    where a: "registry (watchKind w) st (watchPath w) = Some a"
      "watchListener w = listenerFor (watchKind w) (watchPath w) a"
    by blast
  show ?thesis
  proof (cases "watchKind w")
    case Doc
    with a have l: "watchListener w = DocListener (watchPath w)"
      and r: "callbacks st (watchPath w) = Some a"
      by simp_all
    from invEntriesD(1) [OF e a(1)] a(1) Doc
    have "walked Doc (watchPath w) a st" by (simp add: walked_def)
    from grows_mapForEach [OF assms this, of 0 snap] Some l r show ?thesis
      by (simp add: deliver_def)
  next
    case Col
    with a have l: "watchListener w = ColListener a" by simp
    from invEntriesD(1) [OF e a(1)] a(1) Col
    have "walked Col (watchPath w) a st" by (simp add: walked_def)
    from grows_mapForEach [OF assms this, of 0 snap] Some l show ?thesis
      by (simp add: deliver_def)
  qed
qed

lemma deliver_walk:
  assumes "invariant st" and "h \<in> set (openHandles st k key)"
  shows "\<exists>a. walked k key a st \<and> registered st k key = mapEntries (func (heap st a)) \<and>
    deliver h snap st = mapForEach k key a 0 snap st"
proof -
  from assms(1) have e: "invEntries st" by (simp add: invariant_def)
  from deliver_open [OF assms, of snap] obtain a
    where a: "registry k st key = Some a" "deliver h snap st = mapForEach k key a 0 snap st"
    by blast
  from invEntriesD(1) [OF e a(1)] a(1) have "walked k key a st"
    by (simp add: walked_def)
  with a show ?thesis by (auto simp: registered_def)
qed

lemma invocations_Cons_Invoked:
  "invocations (Invoked k key x c snap # evs) = Invoked k key x c snap # invocations evs"
  by (simp add: invocations_def)

lemma undisturbed_none [simp]: "undisturbed k key [] tr"
proof (induction tr)
  case Nil
  show ?case by simp
next
  case (Cons e tr)
  then show ?case by (cases e) simp_all
qed

lemma undisturbed_calm:
  "invocations evs = [] \<Longrightarrow>
   undisturbed k key P (evs @ tr) =
     (list_all (\<lambda>e. \<not> disturbs k key P e) evs \<and> undisturbed k key P tr)"
proof (induction evs)
  case Nil
  show ?case by simp
next
  case (Cons e evs)
  from Cons.prems have e: "\<not> isInvoked e" and rest: "invocations evs = []"
    by (simp_all add: invocations_def split: if_splits)
  from e have "pendingAfter k key P e = P" by (cases e) simp_all
  with Cons.IH [OF rest] show ?case by auto
qed

lemma slot_kept:
  assumes ev: "evolves k key evs m m'" and n: "n < length m"
    and calm: "list_all (\<lambda>e. \<not> disturbs k key P e) evs" and d: "distinct (map fst P)"
    and mem: "\<And>e. m ! n = Some e \<Longrightarrow> e \<in> set P"
  shows "m' ! n = m ! n"
proof -
  from evolvesD [OF ev] n have s: "slotEvolves k key evs (Some (m ! n)) (m' ! n)"
    by (metis less_le_trans slotAt_def)
  show ?thesis
  proof (cases "m ! n")
    case None
    with s show ?thesis by (simp add: slotEvolves_def)
  next
    case (Some e)
    from mem [OF Some] have eP: "e \<in> set P" .
    then have idP: "fst e \<in> set (map fst P)" by simp
    show ?thesis
    proof (cases "m' ! n")
      case None
      with s Some have "Unregistered k key (fst e) \<in> set evs"
        by (simp add: slotEvolves_def)
      with calm have "\<not> disturbs k key P (Unregistered k key (fst e))"
        unfolding list_all_iff by blast
      with idP show ?thesis by simp
    next
      case new: (Some e')
      show ?thesis
      proof (cases "e' = e")
        case True
        with Some new show ?thesis by simp
      next
        case False
        with s Some new have f: "fst e' = fst e"
          and r: "Registered k key (fst e) (snd e') \<in> set evs"
          by (simp_all add: slotEvolves_def)
        from r calm have "\<not> disturbs k key P (Registered k key (fst e) (snd e'))"
          unfolding list_all_iff by blast
        with idP have "(fst e, snd e') \<in> set P" by simp
        moreover from eP have "(fst e, snd e) \<in> set P" by simp
        ultimately have "snd e' = snd e"
          using d by (metis eq_key_imp_eq_value)
        with f have "e' = e" by (simp add: prod_eq_iff)
        with False show ?thesis by simp
      qed
    qed
  qed
qed

subsection \<open>The order of the calls of a dispatch\<close>

lemma calls_mapForEach:
  "invariant st \<Longrightarrow> walked k key a st \<Longrightarrow>
   list_all (calledOn k key) (invocations (newEvents st (mapForEach k key a i snap st)))"
proof (induction k key a i snap st rule: mapForEach.induct)
  case (1 k key a i snap st)
  show ?case
  proof (cases "i < length (func (heap st a))")
    case False
    then show ?thesis by (simp add: mapForEach.simps [of k key a i] invocations_def)
  next
    case True
    show ?thesis
    proof (cases "func (heap st a) ! i")
      case None
      with True "1.IH"(1) "1.prems" show ?thesis
        by (simp add: mapForEach.simps [of k key a i])
    next
      case (Some e)
      let ?I = "Invoked k key (fst e) (snd e) snap"
      let ?st1 = "invoke k key (fst e) (snd e) snap st"
      from effect_invoke [OF "1.prems", of "fst e" "snd e" snap] obtain evs
        where new1: "newEvents st ?st1 = ?I # evs"
          and tr1: "trace ?st1 = trace st @ ?I # evs"
          and nocalls: "invocations evs = []"
        by blast
      show ?thesis
      proof (cases "throws (snd e)")
        case True
        with \<open>i < length (func (heap st a))\<close> Some new1 nocalls show ?thesis
          by (simp add: mapForEach.simps [of k key a i] invocations_Cons_Invoked)
      next
        case False
        let ?res = "mapForEach k key a (Suc i) snap ?st1"
        have inv1: "invariant ?st1" using "1.prems"(1) by (rule invariant_invoke)
        have w1: "walked k key a ?st1" using "1.prems" by (rule walked_invoke)
        from tr1 new1 have g1: "trace ?st1 = trace st @ newEvents st ?st1" by simp
        from newEvents_trans [OF g1 grows_mapForEach [OF inv1 w1, of "Suc i" snap]] new1
        have new: "newEvents st ?res = ?I # evs @ newEvents ?st1 ?res" by simp
        from "1.IH"(2) [OF True Some False inv1 w1] True Some False new nocalls
        show ?thesis
          by (simp add: mapForEach.simps [of k key a i] invocations_Cons_Invoked)
      qed
    qed
  qed
qed

lemma deliver_calls:
  assumes "invariant st" and "h \<in> set (openHandles st k key)"
  shows "list_all (calledOn k key) (invocations (newEvents st (deliver h snap st)))"
proof -
  from deliver_walk [OF assms, of snap] obtain a
    where w: "walked k key a st" and d: "deliver h snap st = mapForEach k key a 0 snap st"
    by blast
  from calls_mapForEach [OF assms(1) w, of 0 snap] show ?thesis
    unfolding d .
qed

lemma mapEntries_append: "mapEntries (xs @ ys) = mapEntries xs @ mapEntries ys"
  by (induction xs rule: mapEntries.induct) simp_all

lemma window_distinct:
  assumes "distinct (map fst (mapEntries m))"
  shows "distinct (map fst (mapEntries (drop i (take L m))))"
proof -
  have "m = take i (take L m) @ drop i (take L m) @ drop L m"
    by (metis append.assoc append_take_drop_id)
  then have "mapEntries m =
      mapEntries (take i (take L m)) @ mapEntries (drop i (take L m)) @ mapEntries (drop L m)"
    by (metis mapEntries_append)
  with assms show ?thesis by simp
qed

lemma window_None:
  "i < length m \<Longrightarrow> m ! i = None \<Longrightarrow>
   mapEntries (drop i (take L m)) = mapEntries (drop (Suc i) (take L m))"
  by (cases "i < L") (simp_all add: Cons_nth_drop_Suc [symmetric])

lemma window_Some:
  "i < length m \<Longrightarrow> m ! i = Some e \<Longrightarrow> i < L \<Longrightarrow>
   mapEntries (drop i (take L m)) = e # mapEntries (drop (Suc i) (take L m))"
  by (simp add: Cons_nth_drop_Suc [symmetric])

lemma window_empty: "L \<le> i \<Longrightarrow> mapEntries (drop i (take L m)) = []"
  by simp

lemma window_kept:
  assumes ev: "evolves k key evs m m'" and L: "L \<le> length m"
    and calm: "list_all (\<lambda>e. \<not> disturbs k key P e) evs" and d: "distinct (map fst P)"
    and sub: "set (mapEntries (drop i (take L m))) \<subseteq> set P"
  shows "drop i (take L m') = drop i (take L m)"
proof (rule nth_equalityI)
  from evolvesD(2) [OF ev] L show "length (drop i (take L m')) = length (drop i (take L m))"
    by simp
next
  fix j assume "j < length (drop i (take L m'))"
  with evolvesD(2) [OF ev] L have j: "i + j < L" by simp
  with L have n: "i + j < length m" by simp
  have "m' ! (i + j) = m ! (i + j)"
  proof (rule slot_kept [OF ev n calm d])
    fix e assume e: "m ! (i + j) = Some e"
    from j L have "j < length (drop i (take L m))" by simp
    moreover from j L e have "drop i (take L m) ! j = Some e" by simp
    ultimately have "e \<in> set (mapEntries (drop i (take L m)))"
      by (rule mapEntries_nth)
    with sub show "e \<in> set P" by blast
  qed
  with j L evolvesD(2) [OF ev] show "drop i (take L m') ! j = drop i (take L m) ! j"
    by simp
qed

lemma addedSince_kept:
  assumes ev: "evolves k key evs m m'" and a: "addedSince k key L sofar m"
  shows "addedSince k key L (sofar @ pre @ evs) m'"
  unfolding addedSince_def
proof (intro allI impI)
  fix j x c
  assume j: "L \<le> j" "j < length m'" and new: "m' ! j = Some (x, c)"
  from evolvesD(1) [OF ev j(2)] new have s: "slotEvolves k key evs (slotAt m j) (Some (x, c))"
    by simp
  show "Registered k key x c \<in> set (sofar @ pre @ evs)"
  proof (cases "j < length m")
    case False
    with s show ?thesis by (simp add: slotAt_def slotEvolves_def)
  next
    case True
    show ?thesis
    proof (cases "m ! j")
      case None
      with s True show ?thesis by (simp add: slotAt_def slotEvolves_def)
    next
      case (Some e)
      with s True have "(x, c) = e \<or> (x = fst e \<and> Registered k key (fst e) c \<in> set evs)"
        by (simp add: slotAt_def slotEvolves_def)
      then show ?thesis
      proof
        assume "(x, c) = e"
        with Some a j(1) True show ?thesis by (auto simp: addedSince_def)
      next
        assume "x = fst e \<and> Registered k key (fst e) c \<in> set evs"
        then show ?thesis by simp
      qed
    qed
  qed
qed

lemma walk_order:
  "invariant st \<Longrightarrow> walked k key a st \<Longrightarrow> L \<le> length (func (heap st a)) \<Longrightarrow>
   addedSince k key L sofar (func (heap st a)) \<Longrightarrow>
   list_all (\<lambda>e. \<not> throws (snd e))
     (butlast (mapEntries (drop i (take L (func (heap st a)))))) \<Longrightarrow>
   undisturbed k key (mapEntries (drop i (take L (func (heap st a)))))
     (newEvents st (mapForEach k key a i snap st)) \<Longrightarrow>
   take (length (mapEntries (drop i (take L (func (heap st a))))))
       (invocations (newEvents st (mapForEach k key a i snap st))) =
     map (\<lambda>e. Invoked k key (fst e) (snd e) snap)
       (mapEntries (drop i (take L (func (heap st a))))) \<and>
   list_all (registeredIn k key (sofar @ newEvents st (mapForEach k key a i snap st)))
     (drop (length (mapEntries (drop i (take L (func (heap st a))))))
        (invocations (newEvents st (mapForEach k key a i snap st))))"
proof (induction k key a i snap st arbitrary: sofar rule: mapForEach.induct)
  case (1 k key a i snap st)
  let ?m = "func (heap st a)"
  note inv = "1.prems"(1) and w = "1.prems"(2) and len = "1.prems"(3)
    and added = "1.prems"(4) and nothrow = "1.prems"(5) and und = "1.prems"(6)
  show ?case
  proof (cases "i < length ?m")
    case False
    with len show ?thesis by (simp add: mapForEach.simps [of k key a i] invocations_def)
  next
    case True
    show ?thesis
    proof (cases "?m ! i")
      case None
      have step: "mapForEach k key a i snap st = mapForEach k key a (Suc i) snap st"
        using True None by (simp add: mapForEach.simps [of k key a i])
      from "1.IH"(1) [OF True None inv w len added] nothrow und
      show ?thesis
        unfolding step window_None [OF True None, of L] by blast
    next
      case (Some e)
      let ?I = "Invoked k key (fst e) (snd e) snap"
      let ?st1 = "invoke k key (fst e) (snd e) snap st"
      let ?m1 = "func (heap ?st1 a)"
      from effect_invoke [OF inv w, of "fst e" "snd e" snap] obtain evs
        where new1: "newEvents st ?st1 = ?I # evs"
          and tr1: "trace ?st1 = trace st @ ?I # evs"
          and nocalls: "invocations evs = []"
          and ev: "evolves k key evs ?m ?m1"
        by blast
      have inv1: "invariant ?st1" using inv by (rule invariant_invoke)
      have w1: "walked k key a ?st1" using inv w by (rule walked_invoke)
      from evolvesD(2) [OF ev] len have len1: "L \<le> length ?m1" by simp
      from addedSince_kept [OF ev added, of "[?I]"]
      have added1: "addedSince k key L (sofar @ ?I # evs) ?m1" by simp
      have here: "L \<le> i \<Longrightarrow> Registered k key (fst e) (snd e) \<in> set sofar"
        using added True Some by (auto simp: addedSince_def)
      show ?thesis
      proof (cases "throws (snd e)")
        case throws: True
        have res: "mapForEach k key a i snap st = ?st1"
          using True Some throws by (simp add: mapForEach.simps [of k key a i])
        show ?thesis
        proof (cases "i < L")
          case inside: True
          note P = window_Some [OF True Some inside]
          from nothrow throws have "mapEntries (drop (Suc i) (take L ?m)) = []"
            unfolding P by (cases "mapEntries (drop (Suc i) (take L ?m))") simp_all
          with P have "mapEntries (drop i (take L ?m)) = [e]" by simp
          then show ?thesis
            unfolding res new1 by (simp add: invocations_Cons_Invoked nocalls)
        next
          case False
          then have "mapEntries (drop i (take L ?m)) = []" by simp
          moreover from False here have "Registered k key (fst e) (snd e) \<in> set sofar" by simp
          ultimately show ?thesis
            unfolding res new1 by (simp add: invocations_Cons_Invoked nocalls)
        qed
      next
        case returns: False
        let ?res = "mapForEach k key a (Suc i) snap ?st1"
        have res: "mapForEach k key a i snap st = ?res"
          using True Some returns by (simp add: mapForEach.simps [of k key a i])
        from tr1 new1 have g1: "trace ?st1 = trace st @ newEvents st ?st1" by simp
        from newEvents_trans [OF g1 grows_mapForEach [OF inv1 w1, of "Suc i" snap]] new1
        have new: "newEvents st ?res = ?I # evs @ newEvents ?st1 ?res" by simp
        show ?thesis
        proof (cases "i < L")
          case inside: True
          let ?P' = "mapEntries (drop (Suc i) (take L ?m))"
          note P = window_Some [OF True Some inside]
          from window_distinct [OF invIdsD [OF inv, of a], of i L]
          have d: "fst e \<notin> fst ` set ?P'" "distinct (map fst ?P')"
            unfolding P by simp_all
          from d(1) have "filter (\<lambda>p. fst p \<noteq> fst e) ?P' = ?P'"
            by (fastforce simp: filter_id_conv image_iff)
          with und have "undisturbed k key ?P' (evs @ newEvents ?st1 ?res)"
            unfolding res new P by simp
          then have calm: "list_all (\<lambda>e. \<not> disturbs k key ?P' e) evs"
            and rest: "undisturbed k key ?P' (newEvents ?st1 ?res)"
            by (simp_all add: undisturbed_calm [OF nocalls])
          from window_kept [OF ev len calm d(2) subset_refl]
          have keep: "mapEntries (drop (Suc i) (take L ?m1)) = ?P'" by simp
          from nothrow have nothrow': "list_all (\<lambda>e. \<not> throws (snd e)) (butlast ?P')"
            unfolding P by (simp split: if_splits)
          have "take (length (mapEntries (drop (Suc i) (take L ?m1))))
                (invocations (newEvents ?st1 ?res)) =
              map (\<lambda>e. Invoked k key (fst e) (snd e) snap)
                (mapEntries (drop (Suc i) (take L ?m1))) \<and>
            list_all (registeredIn k key ((sofar @ ?I # evs) @ newEvents ?st1 ?res))
              (drop (length (mapEntries (drop (Suc i) (take L ?m1))))
                 (invocations (newEvents ?st1 ?res)))"
            using nothrow' rest unfolding keep [symmetric]
            by (intro "1.IH"(2) [OF True Some returns inv1 w1 len1 added1])
          then show ?thesis
            unfolding res new P keep by (simp add: invocations_Cons_Invoked nocalls)
        next
          case False
          then have out: "mapEntries (drop i (take L ?m)) = []"
            "mapEntries (drop (Suc i) (take L ?m1)) = []"
            by simp_all
          from False here have reg: "Registered k key (fst e) (snd e) \<in> set sofar" by simp
          have "take (length (mapEntries (drop (Suc i) (take L ?m1))))
                (invocations (newEvents ?st1 ?res)) =
              map (\<lambda>e. Invoked k key (fst e) (snd e) snap)
                (mapEntries (drop (Suc i) (take L ?m1))) \<and>
            list_all (registeredIn k key ((sofar @ ?I # evs) @ newEvents ?st1 ?res))
              (drop (length (mapEntries (drop (Suc i) (take L ?m1))))
                 (invocations (newEvents ?st1 ?res)))"
            unfolding out
            by (intro "1.IH"(2) [OF True Some returns inv1 w1 len1 added1, unfolded out]) simp_all
          with reg show ?thesis
            unfolding res new out by (simp add: invocations_Cons_Invoked nocalls)
        qed
      qed
    qed
  qed
qed

lemma deliver_order:
  assumes "invariant st" and "h \<in> set (openHandles st k key)"
    and "list_all (\<lambda>e. \<not> throws (snd e)) (butlast (registered st k key))"
    and "undisturbed k key (registered st k key) (newEvents st (deliver h snap st))"
  shows "take (length (registered st k key)) (invocations (newEvents st (deliver h snap st))) =
      map (\<lambda>e. Invoked k key (fst e) (snd e) snap) (registered st k key) \<and>
    list_all (registeredIn k key (newEvents st (deliver h snap st)))
      (drop (length (registered st k key)) (invocations (newEvents st (deliver h snap st))))"
proof -
  from deliver_walk [OF assms(1,2), of snap] obtain a
    where w: "walked k key a st" and r: "registered st k key = mapEntries (func (heap st a))"
      and d: "deliver h snap st = mapForEach k key a 0 snap st"
    by blast
  let ?m = "func (heap st a)"
  have added: "addedSince k key (length ?m) [] ?m"
    by (simp add: addedSince_def)
  from walk_order [OF assms(1) w order_refl added, of 0 snap] assms(3,4)
  show ?thesis
    unfolding r d by simp
qed




subsection \<open>Overwriting keeps the place in the dispatch order\<close>

lemma slot_id_kept:
  assumes ev: "evolves k key evs m m'" and n: "n < length m"
    and old: "case m ! n of None \<Rightarrow> True | Some e \<Rightarrow> fst e \<in> set ids"
  shows "case m' ! n of None \<Rightarrow> True | Some e \<Rightarrow> fst e \<in> set ids"
proof -
  from evolvesD [OF ev] n have "slotEvolves k key evs (Some (m ! n)) (m' ! n)"
    by (metis less_le_trans slotAt_def)
  with old show ?thesis
    by (auto simp: slotEvolves_def split: option.splits)
qed

lemma walk_reaches:
  "invariant st \<Longrightarrow> walked k key a st \<Longrightarrow> i \<le> s \<Longrightarrow> s < length (func (heap st a)) \<Longrightarrow>
   func (heap st a) ! s = Some (x, c) \<Longrightarrow>
   (\<And>j. i \<le> j \<Longrightarrow> j < s \<Longrightarrow>
      (case func (heap st a) ! j of None \<Rightarrow> True | Some e \<Rightarrow> fst e \<in> set ahead)) \<Longrightarrow>
   x \<notin> set ahead \<Longrightarrow>
   undisturbed k key [(x, c)] (newEvents st (mapForEach k key a i snap st)) \<Longrightarrow>
   list_all (\<lambda>e. \<not> throwsUnder k key ahead e) (newEvents st (mapForEach k key a i snap st)) \<Longrightarrow>
   Invoked k key x c snap \<in> set (invocations (newEvents st (mapForEach k key a i snap st))) \<and>
   list_all (calledUnder k key ahead)
     (takeWhile (\<lambda>e. e \<noteq> Invoked k key x c snap)
        (invocations (newEvents st (mapForEach k key a i snap st))))"
proof (induction k key a i snap st rule: mapForEach.induct)
  case (1 k key a i snap st)
  let ?m = "func (heap st a)"
  note inv = "1.prems"(1) and w = "1.prems"(2) and le = "1.prems"(3) and s = "1.prems"(4)
    and at = "1.prems"(5) and before = "1.prems"(6) and fresh = "1.prems"(7)
    and und = "1.prems"(8) and nothrow = "1.prems"(9)
  from le s have True: "i < length ?m" by simp
  show ?case
  proof (cases "?m ! i")
    case None
    with at have "i \<noteq> s" by auto
    with le have le': "Suc i \<le> s" by simp
    have step: "mapForEach k key a i snap st = mapForEach k key a (Suc i) snap st"
      using True None by (simp add: mapForEach.simps [of k key a i])
    have "Invoked k key x c snap
        \<in> set (invocations (newEvents st (mapForEach k key a (Suc i) snap st))) \<and>
      list_all (calledUnder k key ahead)
        (takeWhile (\<lambda>e. e \<noteq> Invoked k key x c snap)
           (invocations (newEvents st (mapForEach k key a (Suc i) snap st))))"
      using und nothrow unfolding step
      by (intro "1.IH"(1) [OF True None inv w le' s at _ fresh]) (simp_all add: before)
    then show ?thesis unfolding step .
  next
    case (Some e)
    let ?I = "Invoked k key (fst e) (snd e) snap"
    let ?st1 = "invoke k key (fst e) (snd e) snap st"
    let ?m1 = "func (heap ?st1 a)"
    from effect_invoke [OF inv w, of "fst e" "snd e" snap] obtain evs
      where new1: "newEvents st ?st1 = ?I # evs"
        and tr1: "trace ?st1 = trace st @ ?I # evs"
        and nocalls: "invocations evs = []"
        and ev: "evolves k key evs ?m ?m1"
      by blast
    have inv1: "invariant ?st1" using inv by (rule invariant_invoke)
    have w1: "walked k key a ?st1" using inv w by (rule walked_invoke)
    from tr1 new1 have g1: "trace ?st1 = trace st @ newEvents st ?st1" by simp
    let ?res = "mapForEach k key a (Suc i) snap ?st1"
    from newEvents_trans [OF g1 grows_mapForEach [OF inv1 w1, of "Suc i" snap]] new1
    have new: "newEvents st ?res = ?I # evs @ newEvents ?st1 ?res" by simp
    show ?thesis
    proof (cases "i = s")
      case True
      with at Some have e: "e = (x, c)" by simp
      have "\<exists>rest. newEvents st (mapForEach k key a i snap st) = ?I # rest"
        using \<open>i < length ?m\<close> Some new1 new
        by (cases "throws (snd e)") (simp_all add: mapForEach.simps [of k key a i])
      then obtain rest where "newEvents st (mapForEach k key a i snap st) = ?I # rest"
        by blast
      with e show ?thesis by (simp add: invocations_Cons_Invoked)
    next
      case False
      with le have lt: "i < s" and le': "Suc i \<le> s" by simp_all
      from before [OF order_refl lt] Some have id: "fst e \<in> set ahead" by simp
      with fresh have neq: "fst e \<noteq> x" by auto
      have first: "\<exists>rest. newEvents st (mapForEach k key a i snap st) = ?I # rest"
        using True Some new1 new
        by (cases "throws (snd e)") (simp_all add: mapForEach.simps [of k key a i])
      with nothrow id have returns: "\<not> throws (snd e)" by auto
      have res: "mapForEach k key a i snap st = ?res"
        using True Some returns by (simp add: mapForEach.simps [of k key a i])
      from und neq have "undisturbed k key [(x, c)] (evs @ newEvents ?st1 ?res)"
        unfolding res new by simp
      then have calm: "list_all (\<lambda>e. \<not> disturbs k key [(x, c)] e) evs"
        and rest: "undisturbed k key [(x, c)] (newEvents ?st1 ?res)"
        by (simp_all add: undisturbed_calm [OF nocalls])
      from nothrow have nothrow': "list_all (\<lambda>e. \<not> throwsUnder k key ahead e) (newEvents ?st1 ?res)"
        unfolding res new by simp
      from evolvesD(2) [OF ev] s have s1: "s < length ?m1" by simp
      have "?m1 ! s = ?m ! s"
        by (rule slot_kept [OF ev s calm]) (simp_all add: at)
      with at have at1: "?m1 ! s = Some (x, c)" by simp
      have before1: "case ?m1 ! j of None \<Rightarrow> True | Some e \<Rightarrow> fst e \<in> set ahead"
        if "Suc i \<le> j" "j < s" for j
      proof (rule slot_id_kept [OF ev])
        from that s show "j < length ?m" by simp
        from that show "case ?m ! j of None \<Rightarrow> True | Some e \<Rightarrow> fst e \<in> set ahead"
          by (intro before) simp_all
      qed
      have ih: "Invoked k key x c snap \<in> set (invocations (newEvents ?st1 ?res)) \<and>
        list_all (calledUnder k key ahead)
          (takeWhile (\<lambda>e. e \<noteq> Invoked k key x c snap) (invocations (newEvents ?st1 ?res)))"
        using rest nothrow'
        by (intro "1.IH"(2) [OF True Some returns inv1 w1 le' s1 at1 before1 fresh])
      with id neq show ?thesis
        unfolding res new by (simp add: invocations_Cons_Invoked nocalls)
    qed
  qed
qed

lemma idsAhead_Cons:
  "idsAhead x (e # es) = (if fst e = x then [] else fst e # idsAhead x es)"
  by (simp add: idsAhead_def)

lemma idsAhead_fresh: "x \<notin> set (idsAhead x es)"
  by (auto simp: idsAhead_def dest: set_takeWhileD)

lemma idsAhead_replace:
  "idsAhead x (map (\<lambda>e. if fst e = x then (x, v) else e) es) = idsAhead x es"
  by (induction es) (auto simp: idsAhead_def)

lemma slot_of_entry:
  "distinct (map fst (mapEntries m)) \<Longrightarrow> (x, c) \<in> set (mapEntries m) \<Longrightarrow>
   \<exists>s<length m. m ! s = Some (x, c) \<and>
     (\<forall>j<s. case m ! j of None \<Rightarrow> True | Some e \<Rightarrow> fst e \<in> set (idsAhead x (mapEntries m)))"
proof (induction m rule: mapEntries.induct)
  case 1
  then show ?case by simp
next
  case (2 m)
  from "2.IH" "2.prems" obtain s where s: "s < length m" "m ! s = Some (x, c)"
    "\<forall>j<s. case m ! j of None \<Rightarrow> True | Some e \<Rightarrow> fst e \<in> set (idsAhead x (mapEntries m))"
    by auto
  have "\<forall>j<Suc s. case (None # m) ! j of None \<Rightarrow> True
      | Some e \<Rightarrow> fst e \<in> set (idsAhead x (mapEntries (None # m)))"
  proof (intro allI impI)
    fix j assume "j < Suc s"
    with s(3) show "case (None # m) ! j of None \<Rightarrow> True
      | Some e \<Rightarrow> fst e \<in> set (idsAhead x (mapEntries (None # m)))"
      by (cases j) (auto split: option.splits)
  qed
  with s(1,2) have "Suc s < length (None # m) \<and> (None # m) ! Suc s = Some (x, c) \<and>
    (\<forall>j<Suc s. case (None # m) ! j of None \<Rightarrow> True
      | Some e \<Rightarrow> fst e \<in> set (idsAhead x (mapEntries (None # m))))"
    by simp
  then show ?case by blast
next
  case (3 e m)
  show ?case
  proof (cases "fst e = x")
    case True
    with "3.prems" have "e = (x, c)" by (force simp: image_iff)
    then have "0 < length (Some e # m) \<and> (Some e # m) ! 0 = Some (x, c) \<and>
      (\<forall>j<0. case (Some e # m) ! j of None \<Rightarrow> True
        | Some e' \<Rightarrow> fst e' \<in> set (idsAhead x (mapEntries (Some e # m))))"
      by simp
    then show ?thesis by blast
  next
    case False
    with "3.IH" "3.prems" obtain s where s: "s < length m" "m ! s = Some (x, c)"
      "\<forall>j<s. case m ! j of None \<Rightarrow> True | Some e \<Rightarrow> fst e \<in> set (idsAhead x (mapEntries m))"
      by auto
    have "\<forall>j<Suc s. case (Some e # m) ! j of None \<Rightarrow> True
        | Some e' \<Rightarrow> fst e' \<in> set (idsAhead x (mapEntries (Some e # m)))"
    proof (intro allI impI)
      fix j assume "j < Suc s"
      with s(3) False show "case (Some e # m) ! j of None \<Rightarrow> True
        | Some e' \<Rightarrow> fst e' \<in> set (idsAhead x (mapEntries (Some e # m)))"
        by (cases j) (auto simp: idsAhead_Cons split: option.splits)
    qed
    with s(1,2) have "Suc s < length (Some e # m) \<and> (Some e # m) ! Suc s = Some (x, c) \<and>
      (\<forall>j<Suc s. case (Some e # m) ! j of None \<Rightarrow> True
        | Some e' \<Rightarrow> fst e' \<in> set (idsAhead x (mapEntries (Some e # m))))"
      by simp
    then show ?thesis by blast
  qed
qed

lemma deliver_reaches:
  assumes "invariant st" and "h \<in> set (openHandles st k key)"
    and "(x, c) \<in> set (registered st k key)"
    and "undisturbed k key [(x, c)] (newEvents st (deliver h snap st))"
    and "list_all (\<lambda>e. \<not> throwsUnder k key (idsAhead x (registered st k key)) e)
           (newEvents st (deliver h snap st))"
  shows "Invoked k key x c snap \<in> set (invocations (newEvents st (deliver h snap st))) \<and>
    list_all (calledUnder k key (idsAhead x (registered st k key)))
      (takeWhile (\<lambda>e. e \<noteq> Invoked k key x c snap)
         (invocations (newEvents st (deliver h snap st))))"
proof -
  from deliver_walk [OF assms(1,2), of snap] obtain a
    where w: "walked k key a st" and r: "registered st k key = mapEntries (func (heap st a))"
      and d: "deliver h snap st = mapForEach k key a 0 snap st"
    by blast
  let ?m = "func (heap st a)"
  from slot_of_entry [OF invIdsD [OF assms(1), of a], of x c] assms(3) obtain s
    where s: "s < length ?m" "?m ! s = Some (x, c)"
      "\<forall>j<s. case ?m ! j of None \<Rightarrow> True | Some e \<Rightarrow> fst e \<in> set (idsAhead x (mapEntries ?m))"
    unfolding r by blast
  from s(3) have before: "\<And>j. 0 \<le> j \<Longrightarrow> j < s \<Longrightarrow>
      (case ?m ! j of None \<Rightarrow> True | Some e \<Rightarrow> fst e \<in> set (idsAhead x (mapEntries ?m)))"
    by blast
  from walk_reaches [OF assms(1) w le0 s(1,2) before idsAhead_fresh, of snap] assms(4,5)
  show ?thesis
    unfolding r d by blast
qed




end
